theory Spec2Isabelle
  imports Complex_Main "HOL-Library.Word" "HOL-Library.Log_Nat"
begin

unbundle bit_operations_syntax

section \<open>JavaScript numbers\<close>

text \<open>
  The engine computes with JavaScript numbers (IEEE 754 binary64). A finite number is
  modelled by the rational it denotes, and every arithmetic operation of the source is
  the exact operation followed by \<open>fl\<close>, rounding to the nearest number with a 53-bit
  significand, ties to the even significand. The exponent is left unbounded: every value
  the engine computes from a 32-bit generator state and an integer drop column is either
  zero or has a magnitude between \<open>2\<^sup>-\<^sup>5\<^sup>4\<close> and \<open>2\<^sup>1\<^sup>0\<^sup>2\<^sup>4\<close>, where binary64 neither
  underflows nor overflows. Infinities and NaN do not arise from such inputs.
\<close>

type_synonym number = rat

text \<open>Round to the nearest integer, ties to even.\<close>

definition rne :: "rat \<Rightarrow> int" where
  "rne x = (let f = \<lfloor>x\<rfloor>; d = x - of_int f
            in if d < 1/2 then f
               else if 1/2 < d then f + 1
               else if even f then f else f + 1)"

text \<open>The binary exponent of a nonzero rational: \<open>\<lfloor>log\<^sub>2 \<bar>x\<bar>\<rfloor>\<close>.\<close>

definition binade :: "rat \<Rightarrow> int" where
  "binade x = (if 1 \<le> \<bar>x\<bar> then bitlen \<lfloor>\<bar>x\<bar>\<rfloor> - 1
               else - bitlen (\<lceil>1 / \<bar>x\<bar>\<rceil> - 1))"

definition fl :: "rat \<Rightarrow> number" where
  "fl x = (if x = 0 then 0
           else let u = 2 powi (binade x - 52)
                in sgn x * (of_int (rne (\<bar>x\<bar> / u)) * u))"

definition fadd :: "number \<Rightarrow> number \<Rightarrow> number" where
  "fadd x y = fl (x + y)"

definition fsub :: "number \<Rightarrow> number \<Rightarrow> number" where
  "fsub x y = fl (x - y)"

definition fmul :: "number \<Rightarrow> number \<Rightarrow> number" where
  "fmul x y = fl (x * y)"

definition fdiv :: "number \<Rightarrow> number \<Rightarrow> number" where
  "fdiv x y = fl (x / y)"

text \<open>
  \<open>Math.round\<close> returns the nearest integer, a tie going towards \<open>+\<infinity>\<close>;
  \<open>Math.floor\<close> is the floor. Both are exact on finite numbers below \<open>2\<^sup>5\<^sup>3\<close>.
\<close>

definition Math_round :: "number \<Rightarrow> number" where
  "Math_round x = of_int \<lfloor>x + 1/2\<rfloor>"

definition Math_floor :: "number \<Rightarrow> number" where
  "Math_floor x = of_int \<lfloor>x\<rfloor>"

section \<open>Constants\<close>

definition ROWS :: nat where
  "ROWS = 12"

definition DROP_COLUMNS :: nat where
  "DROP_COLUMNS = 13"

section \<open>Xorshift32\<close>

type_synonym u32 = "32 word"

record Xorshift32 =
  state :: u32

text \<open>
  The constructor: \<open>seed >>> 0\<close> is the seed modulo \<open>2\<^sup>3\<^sup>2\<close>, and a zero state is
  replaced by 1.
\<close>

definition new_Xorshift32 :: "int \<Rightarrow> Xorshift32" where
  "new_Xorshift32 seed =
     (let s = (word_of_int seed :: u32)
      in if s = 0 then \<lparr>state = 1\<rparr> else \<lparr>state = s\<rparr>)"

text \<open>
  The three xor-shift steps of \<open>nextFloat\<close>. JavaScript's \<open><<\<close> and \<open>^\<close> work on
  the 32-bit pattern of their operands and \<open>>>>\<close> shifts it logically, so on the bit
  pattern the steps are the word operations below; \<open>x >>> 0\<close> reads the pattern as
  unsigned.
\<close>

definition xorshift :: "u32 \<Rightarrow> u32" where
  "xorshift s =
     (let x = s;
          x = x XOR push_bit 13 x;
          x = x XOR drop_bit 17 x;
          x = x XOR push_bit 5 x
      in x)"

definition nextFloat :: "Xorshift32 \<Rightarrow> number \<times> Xorshift32" where
  "nextFloat g =
     (let s = xorshift (state g)
      in (fdiv (of_int (uint s)) 4294967296, g\<lparr>state := s\<rparr>))"

section \<open>Buffers and hashing\<close>

datatype js_error = TypeError | RangeError

type_synonym u8 = "8 word"

text \<open>
  \<open>Buffer.from(s, 'hex')\<close> of Node.js decodes pairs of hexadecimal digits and stops at
  the first pair that is not one (or at a trailing single character); it does not throw.
\<close>

definition unhex :: "char \<Rightarrow> nat option" where
  "unhex c =
     (let n = (of_char c :: nat)
      in if 48 \<le> n \<and> n \<le> 57 then Some (n - 48)
         else if 97 \<le> n \<and> n \<le> 102 then Some (n - 87)
         else if 65 \<le> n \<and> n \<le> 70 then Some (n - 55)
         else None)"

fun hex_decode :: "string \<Rightarrow> u8 list" where
  "hex_decode (a # b # cs) =
     (case unhex a of
        None \<Rightarrow> []
      | Some x \<Rightarrow>
          (case unhex b of
             None \<Rightarrow> []
           | Some y \<Rightarrow> of_nat (16 * x + y) # hex_decode cs))"
| "hex_decode _ = []"

definition Buffer_from_hex :: "string \<Rightarrow> js_error + u8 list" where
  "Buffer_from_hex s = Inr (hex_decode s)"

text \<open>\<open>buffer.readUInt32BE(0)\<close> throws a range error on a buffer shorter than 4 bytes.\<close>

definition readUInt32BE0 :: "u8 list \<Rightarrow> js_error + int" where
  "readUInt32BE0 buffer =
     (case buffer of
        b0 # b1 # b2 # b3 # _ \<Rightarrow>
          Inr (uint b0 * 16777216 + uint b1 * 65536 + uint b2 * 256 + uint b3)
      | _ \<Rightarrow> Inl RangeError)"

text \<open>
  The seeding step of \<open>createGameEngine\<close>. The digest function \<open>sha256\<close> (Node's
  \<open>crypto\<close>, hex output) is a parameter. The \<open>catch\<close> branch of the source is the
  \<open>Inl\<close> case of the first decoding.
\<close>

definition seed_buffer :: "(string \<Rightarrow> string) \<Rightarrow> string \<Rightarrow> js_error + u8 list" where
  "seed_buffer sha256 combinedSeedHex =
     (case Buffer_from_hex combinedSeedHex of
        Inr buffer \<Rightarrow>
          if length buffer < 4 then Buffer_from_hex (sha256 combinedSeedHex)
          else Inr buffer
      | Inl _ \<Rightarrow> Buffer_from_hex (sha256 combinedSeedHex))"

definition seedInt_of :: "(string \<Rightarrow> string) \<Rightarrow> string \<Rightarrow> js_error + int" where
  "seedInt_of sha256 combinedSeedHex =
     (case seed_buffer sha256 combinedSeedHex of
        Inl e \<Rightarrow> Inl e
      | Inr buffer \<Rightarrow> readUInt32BE0 buffer)"

section \<open>The game engine\<close>

record Peg =
  leftBias :: number

type_synonym PegMap = "Peg list list"

datatype move = Left | Right

record PathResult =
  res_pegMapHash :: string
  path :: "move list"
  binIndex :: nat
  res_pegMap :: PegMap

record engine =
  pegMap :: PegMap
  pegMapHash :: string
  prng :: Xorshift32

subsection \<open>Peg map generation\<close>

definition leftBias_of :: "number \<Rightarrow> number" where
  "leftBias_of rnd = fadd (1/2) (fmul (fsub rnd (1/2)) (fl (2/10)))"

definition roundedBias_of :: "number \<Rightarrow> number" where
  "roundedBias_of b = fdiv (Math_round (fmul b 1000000)) 1000000"

function row_loop :: "nat \<Rightarrow> nat \<Rightarrow> Peg list \<Rightarrow> Xorshift32 \<Rightarrow> Peg list \<times> Xorshift32" where
  "row_loop r c rowPegs g =
     (if c \<le> r then
        (case nextFloat g of
           (rnd, g') \<Rightarrow>
             row_loop r (c + 1)
               (rowPegs @ [\<lparr>leftBias = roundedBias_of (leftBias_of rnd)\<rparr>]) g')
      else (rowPegs, g))"
  by pat_completeness auto
termination
  by (relation "measure (\<lambda>(r, c, rowPegs, g). Suc r - c)") auto

declare row_loop.simps [simp del]

function pegMap_loop :: "nat \<Rightarrow> PegMap \<Rightarrow> Xorshift32 \<Rightarrow> PegMap \<times> Xorshift32" where
  "pegMap_loop r pm g =
     (if r < ROWS then
        (case row_loop r 0 [] g of
           (rowPegs, g') \<Rightarrow> pegMap_loop (r + 1) (pm @ [rowPegs]) g')
      else (pm, g))"
  by pat_completeness auto
termination
  by (relation "measure (\<lambda>(r, pm, g). ROWS - r)") auto

declare pegMap_loop.simps [simp del]

text \<open>
  \<open>createGameEngine\<close>: seed the generator, build the peg map, hash its serialisation.
  \<open>JSON.stringify\<close> is a parameter as the digest function is.
\<close>

definition createGameEngine ::
  "(string \<Rightarrow> string) \<Rightarrow> (PegMap \<Rightarrow> string) \<Rightarrow> string \<Rightarrow> js_error + engine" where
  "createGameEngine sha256 stringify combinedSeedHex =
     (case seedInt_of sha256 combinedSeedHex of
        Inl e \<Rightarrow> Inl e
      | Inr seedInt \<Rightarrow>
          (case pegMap_loop 0 [] (new_Xorshift32 seedInt) of
             (pm, g) \<Rightarrow>
               Inr \<lparr>pegMap = pm, pegMapHash = sha256 (stringify pm), prng = g\<rparr>))"

subsection \<open>The walk\<close>

text \<open>
  \<open>pegMap[r][pegIndex]\<close> followed by \<open>peg.leftBias\<close>: a row or a peg that is not
  there is \<open>undefined\<close>, and reading a property of \<open>undefined\<close> throws a type error.
\<close>

definition peg_at :: "PegMap \<Rightarrow> nat \<Rightarrow> nat \<Rightarrow> js_error + Peg" where
  "peg_at pm r i =
     (if r < length pm then
        (if i < length (pm ! r) then Inr (pm ! r ! i) else Inl TypeError)
      else Inl TypeError)"

definition adj_of :: "int \<Rightarrow> number" where
  "adj_of dropColumn =
     fmul (fsub (of_int dropColumn) (Math_floor (fdiv (of_nat ROWS) 2))) (fl (1/100))"

definition biasPrime_of :: "Peg \<Rightarrow> int \<Rightarrow> number" where
  "biasPrime_of peg dropColumn =
     (let biasPrime = fadd (leftBias peg) (adj_of dropColumn);
          biasPrime = (if biasPrime < 0 then 0 else biasPrime);
          biasPrime = (if 1 < biasPrime then 1 else biasPrime)
      in biasPrime)"

function run_loop ::
  "PegMap \<Rightarrow> int \<Rightarrow> nat \<Rightarrow> move list \<Rightarrow> nat \<Rightarrow> Xorshift32
     \<Rightarrow> js_error + (move list \<times> nat \<times> Xorshift32)" where
  "run_loop pm dropColumn r pth pos g =
     (if r < ROWS then
        (case peg_at pm r (min pos r) of
           Inl e \<Rightarrow> Inl e
         | Inr peg \<Rightarrow>
             (case nextFloat g of
                (rnd, g') \<Rightarrow>
                  if rnd < biasPrime_of peg dropColumn
                  then run_loop pm dropColumn (r + 1) (pth @ [Left]) pos g'
                  else run_loop pm dropColumn (r + 1) (pth @ [Right]) (pos + 1) g'))
      else Inr (pth, pos, g))"
  by pat_completeness auto
termination
  by (relation "measure (\<lambda>(pm, dropColumn, r, pth, pos, g). ROWS - r)") auto

declare run_loop.simps [simp del]

text \<open>
  \<open>engine.run\<close>: the result, and the engine with its generator advanced in place.
\<close>

definition run :: "engine \<Rightarrow> int \<Rightarrow> js_error + (PathResult \<times> engine)" where
  "run eng dropColumn =
     (case run_loop (pegMap eng) dropColumn 0 [] 0 (prng eng) of
        Inl e \<Rightarrow> Inl e
      | Inr (pth, pos, g) \<Rightarrow>
          Inr (\<lparr>res_pegMapHash = pegMapHash eng, path = pth, binIndex = pos,
                res_pegMap = pegMap eng\<rparr>,
               eng\<lparr>prng := g\<rparr>))"

section \<open>The generator's stream\<close>

text \<open>
  \<open>stream_after n g\<close> is the generator after \<open>n\<close> calls of \<open>nextFloat\<close>, and
  \<open>nth_draw k g\<close> the number the \<open>k\<close>-th call returns (\<open>k \<ge> 1\<close>).
\<close>

fun stream_after :: "nat \<Rightarrow> Xorshift32 \<Rightarrow> Xorshift32" where
  "stream_after 0 g = g"
| "stream_after (Suc n) g = stream_after n (snd (nextFloat g))"

definition nth_draw :: "nat \<Rightarrow> Xorshift32 \<Rightarrow> number" where
  "nth_draw k g = fst (nextFloat (stream_after (k - 1) g))"

text \<open>
  The advance function in the words of the specification, on unsigned integers with the
  32-bit wrap-around written out.
\<close>

definition spec_advance :: "int \<Rightarrow> int" where
  "spec_advance x0 =
     (let x1 = x0 XOR ((x0 * 2 ^ 13) mod 2 ^ 32);
          x2 = x1 XOR (x1 div 2 ^ 17);
          x3 = x2 XOR ((x2 * 2 ^ 5) mod 2 ^ 32)
      in x3)"

text \<open>
  The advance function is linear over the bitwise exclusive or. The first table lists,
  for every bit \<open>i\<close>, a state that \<open>xorshift\<close> maps to \<open>2\<^sup>i\<close>; the second a state
  \<open>x\<close> with \<open>xorshift x XOR x = 2\<^sup>i\<close>.
\<close>

definition xorshift_preimages :: "u32 list" where
  "xorshift_preimages =
     [4071982377, 3848997458, 3738612901, 3182258506, 2069549716, 4139099432, 3983231568,
      3470144673, 2645322050, 995676804, 1991353608, 3982707216, 3469095969, 2643224642,
      991481988, 1982963976, 3965927952, 3435537441, 2576107586, 857247876, 1714495752,
      3428991504, 2294547488, 294127680, 588255360, 1176510720, 2353021440, 142607360,
      285214720, 570429440, 1140858880, 2281717760]"

definition fixpoint_preimages :: "u32 list" where
  "fixpoint_preimages =
     [2456421193, 645318041, 1313818681, 1280725041, 1214537761, 1073741825, 2147483650,
      3502817351, 1901674701, 3803349402, 3351756863, 2408546430, 522125564, 4009148859,
      260538430, 3485974591, 2676981886, 1058996476, 2935407035, 2408022078, 521076860,
      4007051451, 264733246, 3477587007, 2660206718, 1025446140, 2868306363, 2273820734,
      252674172, 3470246075, 2645524854, 3912565156]"

section \<open>The specification's words\<close>

definition tri :: "nat \<Rightarrow> nat" where
  "tri r = r * (r + 1) div 2"

definition peg_of :: "number \<Rightarrow> Peg" where
  "peg_of rnd = \<lparr>leftBias = roundedBias_of (leftBias_of rnd)\<rparr>"

definition spec_row :: "Xorshift32 \<Rightarrow> nat \<Rightarrow> Peg list" where
  "spec_row g0 r = map (\<lambda>c. peg_of (nth_draw (tri r + c + 1) g0)) [0..<Suc r]"

definition rights :: "move list \<Rightarrow> nat" where
  "rights p = length (filter (\<lambda>m. m = Right) p)"

definition clamp :: "number \<Rightarrow> number \<Rightarrow> number \<Rightarrow> number" where
  "clamp x lo hi = max lo (min hi x)"

definition spec_biasPrime :: "PegMap \<Rightarrow> int \<Rightarrow> nat \<Rightarrow> nat \<Rightarrow> number" where
  "spec_biasPrime pm dropColumn r pos =
     (let pegIndex = min pos r;
          adj = fmul (fsub (of_int dropColumn) (of_int \<lfloor>12 / 2 :: rat\<rfloor>)) (fl (1/100))
      in clamp (fadd (leftBias (pm ! r ! pegIndex)) adj) 0 1)"

definition spec_row_step ::
  "PegMap \<Rightarrow> int \<Rightarrow> move list \<times> nat \<times> Xorshift32 \<Rightarrow> nat \<Rightarrow> move list \<times> nat \<times> Xorshift32" where
  "spec_row_step pm dropColumn st r =
     (case st of
        (pth, pos, g) \<Rightarrow>
          (case nextFloat g of
             (rnd, g') \<Rightarrow>
               if rnd < spec_biasPrime pm dropColumn r pos
               then (pth @ [Left], pos, g')
               else (pth @ [Right], pos + 1, g')))"

definition spec_walk :: "PegMap \<Rightarrow> int \<Rightarrow> Xorshift32 \<Rightarrow> nat \<Rightarrow> move list \<times> nat \<times> Xorshift32" where
  "spec_walk pm dropColumn g n = foldl (spec_row_step pm dropColumn) ([], 0, g) [0..<n]"

definition triangular :: "PegMap \<Rightarrow> bool" where
  "triangular pm \<longleftrightarrow> map length pm = map Suc [0..<ROWS]"

definition spec_decision :: "PegMap \<Rightarrow> int \<Rightarrow> nat \<Rightarrow> nat \<Rightarrow> number \<Rightarrow> move" where
  "spec_decision pm dropColumn r pos rnd =
     (if rnd < spec_biasPrime pm dropColumn r pos then Left else Right)"

definition round_half_away :: "rat \<Rightarrow> int" where
  "round_half_away x = (if x < 0 then - \<lfloor>- x + 1/2\<rfloor> else \<lfloor>x + 1/2\<rfloor>)"

definition spec_bias :: "number \<Rightarrow> number" where
  "spec_bias d = fadd (1/2) (fmul (fsub d (1/2)) (fl (2/10)))"

definition spec_round6 :: "rat \<Rightarrow> rat" where
  "spec_round6 b = of_int (round_half_away (b * 1000000)) / 1000000"

definition exact_bias :: "rat \<Rightarrow> rat" where
  "exact_bias d = 1/2 + (d - 1/2) * (2/10)"

definition product_tie :: "number \<Rightarrow> bool" where
  "product_tie b \<longleftrightarrow>
     fmul b 1000000 = of_int \<lfloor>fmul b 1000000\<rfloor> + 1/2 \<and> b * 1000000 < fmul b 1000000"

definition valid_hex :: "string \<Rightarrow> bool" where
  "valid_hex s \<longleftrightarrow> even (length s) \<and> list_all (\<lambda>c. unhex c \<noteq> None) s"

section \<open>The engine on integers\<close>

text \<open>
  \<open>micro b\<close> is the integer that \<open>Math.round(b * 1000000)\<close> returns. \<open>peg_micro k\<close>
  is the same number computed on integers from the generator state \<open>k\<close> of the peg's
  draw, and \<open>int_left k n dropColumn\<close> decides on integers whether the draw of state
  \<open>k\<close> goes left at a peg whose bias is \<open>n\<close> millionths; \<open>int_tie\<close> holds where
  the draw is exactly the adjusted bias. The rounding errors of the floating-point
  computation are shown below to be too small to matter away from such ties.
\<close>

definition micro :: "number \<Rightarrow> int" where
  "micro b = \<lfloor>fmul b 1000000 + 1/2\<rfloor>"

definition peg_micro :: "int \<Rightarrow> int" where
  "peg_micro k = 500000 + ((k - 2 ^ 31) * 3125 + 2 ^ 25) div 2 ^ 26"

definition int_left :: "int \<Rightarrow> int \<Rightarrow> int \<Rightarrow> bool" where
  "int_left k n dropColumn \<longleftrightarrow> k * 15625 < (n + 10000 * (dropColumn - 6)) * 2 ^ 26"

definition int_tie :: "int \<Rightarrow> int \<Rightarrow> int \<Rightarrow> bool" where
  "int_tie k n dropColumn \<longleftrightarrow> k * 15625 = (n + 10000 * (dropColumn - 6)) * 2 ^ 26"

section \<open>The test vector\<close>

text \<open>
  The combined seed of the repository's test vector, the first 102 states of its
  generator stream (\<open>stream_states n s\<close> lists the \<open>n\<close> states that follow \<open>s\<close>), and
  its peg map in millionths.
\<close>

definition vector_seed :: string where
  "vector_seed = ''e1dddf77de27d395ea2be2ed49aa2a59bd6bf12ee8d350c16c008abd406c07e0''"

fun stream_states :: "nat \<Rightarrow> u32 \<Rightarrow> u32 list" where
  "stream_states 0 s = []"
| "stream_states (Suc n) s = xorshift s # stream_states n (xorshift s)"

definition vector_states :: "u32 list" where
  "vector_states =
     [475094958, 3274968060, 188674553, 1966527577, 1477038951, 784681205, 2091829272,
      270451470, 3348332817, 1099867113, 730524432, 2884820196, 4255825587, 3857578541,
      262576217, 1226250223, 3602833754, 1478567440, 3766490177, 2734747109, 1765688795,
      2435569209, 2524772911, 773507283, 2534603059, 3467335689, 284127580, 643123710,
      1647511339, 1478143552, 3079126409, 1189154770, 2222258111, 1256211774, 179513277,
      2798822271, 2769976833, 2980005612, 1897898989, 690645724, 3930768484, 3926244839,
      3935769691, 194149109, 3713264371, 2713093205, 1455392171, 1734108014, 2366310454,
      1840937008, 1966163118, 3912361468, 1682958427, 2984008665, 1850456010, 250448371,
      1168471386, 2328255357, 1955769993, 154164008, 1224612418, 4252363961, 1556051400,
      4072912299, 178546064, 1154676219, 1474199917, 2040475668, 1814168730, 3130722946,
      2729429895, 541051752, 4077281249, 666243100, 1393146374, 3982511202, 2036579476,
      3503703660, 459441729, 1056633108, 2077257336, 3052796823, 1516553300, 2670362947,
      793927298, 4106728611, 1210672330, 4071802066, 4013091078, 4032590319, 2991879487,
      2726486918, 549045023, 60801330, 2357616942, 1423158943, 17538559, 607965189,
      2042219643, 1189544032, 2072064437, 3946861230]"

definition vector_biases :: "int list list" where
  "vector_biases =
     [[422123],
      [552503, 408786],
      [491574, 468780, 436540],
      [497408, 412594, 555919, 451217],
      [434018, 534335, 598177, 579632, 412227],
      [457102, 567770, 468851, 575391, 527347, 482221],
      [513415, 517569, 436019, 518027, 561460, 413231, 429948],
      [476718, 468831, 543383, 455374, 503482, 458497, 408359, 530330],
      [528987, 538767, 488378, 432161, 583041, 582830, 583274, 409041, 572912],
      [526338, 467772, 480751, 510190, 485725, 491557, 582184, 478369, 538954, 486169],
      [411662, 454411, 508418, 491073, 407179, 457025, 598016, 472459, 589660, 408314,
       453769],
      [468648, 495017, 484479, 545786, 527099, 425195, 589863, 431024, 464873, 585450,
       494836, 563154]]"

definition vector_pegMap :: PegMap where
  "vector_pegMap = map (map (\<lambda>n. \<lparr>leftBias = fdiv (of_int n) 1000000\<rparr>)) vector_biases"

definition peg_ok :: "u32 \<Rightarrow> int \<Rightarrow> bool" where
  "peg_ok s n \<longleftrightarrow>
     ((uint s - 2 ^ 31) * 3125 + 2 ^ 25) mod 2 ^ 26 \<noteq> 0 \<and> peg_micro (uint s) = n"

definition vector_engine :: "string \<Rightarrow> engine" where
  "vector_engine h = \<lparr>pegMap = vector_pegMap, pegMapHash = h, prng = \<lparr>state = 0xd0d6466c\<rparr>\<rparr>"

section \<open>Properties of the rounding\<close>

subsection \<open>Nearest integer\<close>

lemma rne_of_int: "rne (of_int n) = n"
  by (simp add: rne_def)

lemma rne_lower: "\<lfloor>x\<rfloor> \<le> rne x"
  by (simp add: rne_def Let_def)

lemma rne_upper: "rne x \<le> \<lfloor>x\<rfloor> + 1"
  by (simp add: rne_def Let_def)

lemma rne_mono:
  assumes "x \<le> y"
  shows "rne x \<le> rne y"
proof (cases "\<lfloor>x\<rfloor> < \<lfloor>y\<rfloor>")
  case True
  have "rne x \<le> \<lfloor>x\<rfloor> + 1" by (rule rne_upper)
  also have "\<dots> \<le> \<lfloor>y\<rfloor>" using True by simp
  also have "\<dots> \<le> rne y" by (rule rne_lower)
  finally show ?thesis .
next
  case False
  with floor_mono[OF assms] have eq: "\<lfloor>x\<rfloor> = \<lfloor>y\<rfloor>" by simp
  show ?thesis using assms eq by (auto simp: rne_def Let_def)
qed

subsection \<open>The binary exponent\<close>

lemma two_powi_nonneg: "0 \<le> e \<Longrightarrow> (2::rat) powi e = 2 ^ nat e"
  by (simp add: power_int_def)

lemma two_powi_pos: "0 < (2::rat) powi e"
  by (simp add: zero_less_power_int)

lemma binade_ge1:
  assumes "1 \<le> a"
  shows "2 powi (bitlen \<lfloor>a\<rfloor> - 1) \<le> (a::rat) \<and> a < 2 powi (bitlen \<lfloor>a\<rfloor> - 1 + 1)"
proof -
  define n where "n = \<lfloor>a\<rfloor>"
  have npos: "0 < n" using assms by (simp add: n_def)
  from bitlen_bounds[OF npos]
  have b1: "2 ^ nat (bitlen n - 1) \<le> n" and b2: "n < 2 ^ nat (bitlen n)" by simp_all
  have bl: "1 \<le> bitlen n"
    using bitlen_eq_zero_iff[of n] bitlen_nonneg[of n] npos by linarith
  have "(2::rat) ^ nat (bitlen n - 1) = of_int (2 ^ nat (bitlen n - 1))" by simp
  also have "\<dots> \<le> of_int n" using b1 by (simp only: of_int_le_iff)
  also have "\<dots> \<le> a" by (simp add: n_def)
  finally have lo: "2 powi (bitlen n - 1) \<le> a" using bl by (simp add: two_powi_nonneg)
  have "n + 1 \<le> 2 ^ nat (bitlen n)" using b2 by simp
  then have "(of_int (n + 1) :: rat) \<le> of_int (2 ^ nat (bitlen n))" by (simp only: of_int_le_iff)
  moreover have "a < of_int (n + 1)" unfolding n_def by linarith
  ultimately have "a < 2 ^ nat (bitlen n)" by simp
  then have hi: "a < 2 powi (bitlen n - 1 + 1)" using bl by (simp add: two_powi_nonneg)
  show ?thesis using lo hi by (simp add: n_def)
qed

lemma binade_lt1:
  assumes "0 < a" "a < 1"
  shows "2 powi (- bitlen (\<lceil>1 / a\<rceil> - 1)) \<le> (a::rat) \<and> a < 2 powi (- bitlen (\<lceil>1 / a\<rceil> - 1) + 1)"
proof -
  define y where "y = 1 / a"
  define m where "m = \<lceil>y\<rceil> - 1"
  have y1: "1 < y" using assms by (simp add: y_def)
  have ypos: "0 < y" using y1 by simp
  have a_eq: "a = 1 / y" by (simp add: y_def)
  have mpos: "0 < m" using y1 by (simp add: m_def)
  have my: "of_int m < y" unfolding m_def by linarith
  have ym: "y \<le> of_int (m + 1)" unfolding m_def by linarith
  from bitlen_bounds[OF mpos]
  have b1: "2 ^ nat (bitlen m - 1) \<le> m" and b2: "m < 2 ^ nat (bitlen m)" by simp_all
  have bl: "1 \<le> bitlen m"
    using bitlen_eq_zero_iff[of m] bitlen_nonneg[of m] mpos by linarith
  have "m + 1 \<le> 2 ^ nat (bitlen m)" using b2 by simp
  then have "(of_int (m + 1) :: rat) \<le> of_int (2 ^ nat (bitlen m))" by (simp only: of_int_le_iff)
  with ym have yle: "y \<le> 2 ^ nat (bitlen m)" by simp
  have "(2::rat) ^ nat (bitlen m - 1) = of_int (2 ^ nat (bitlen m - 1))" by simp
  also have "\<dots> \<le> of_int m" using b1 by (simp only: of_int_le_iff)
  also have "\<dots> < y" by (rule my)
  finally have ygt: "2 ^ nat (bitlen m - 1) < y" .
  have p1: "(2::rat) powi (- bitlen m) = 1 / 2 ^ nat (bitlen m)"
    using bl by (simp add: power_int_minus_divide two_powi_nonneg)
  have p2: "(2::rat) powi (- bitlen m + 1) = 1 / 2 ^ nat (bitlen m - 1)"
  proof -
    have "- bitlen m + 1 = - (bitlen m - 1)" by simp
    then show ?thesis using bl by (simp only: power_int_minus_divide) (simp add: two_powi_nonneg)
  qed
  have lo: "2 powi (- bitlen m) \<le> a"
    unfolding p1 a_eq using yle ypos by (simp add: frac_le)
  have hi: "a < 2 powi (- bitlen m + 1)"
    unfolding p2 a_eq using ygt ypos by (simp add: frac_less2)
  show ?thesis using lo hi by (simp add: m_def y_def)
qed

lemma binade_bounds:
  assumes "x \<noteq> 0"
  shows "2 powi (binade x) \<le> \<bar>x\<bar> \<and> \<bar>x\<bar> < 2 powi (binade x + 1)"
proof (cases "1 \<le> \<bar>x\<bar>")
  case True
  then show ?thesis using binade_ge1[of "\<bar>x\<bar>"] by (simp add: binade_def)
next
  case False
  then show ?thesis using binade_lt1[of "\<bar>x\<bar>"] assms by (simp add: binade_def)
qed

lemma binade_unique:
  assumes "2 powi e \<le> \<bar>x\<bar>" "\<bar>x\<bar> < 2 powi (e + 1)"
  shows "binade x = e"
proof -
  have "0 < \<bar>x\<bar>" using assms(1) two_powi_pos[of e] by linarith
  then have "x \<noteq> 0" by simp
  from binade_bounds[OF this]
  have b1: "2 powi (binade x) \<le> \<bar>x\<bar>" and b2: "\<bar>x\<bar> < 2 powi (binade x + 1)" by simp_all
  have "(2::rat) powi e < 2 powi (binade x + 1)" using assms(1) b2 by simp
  then have "e < binade x + 1"
    by (metis power_int_increasing not_le one_le_numeral leD)
  moreover have "(2::rat) powi (binade x) < 2 powi (e + 1)" using assms(2) b1 by simp
  then have "binade x < e + 1"
    by (metis power_int_increasing not_le one_le_numeral leD)
  ultimately show ?thesis by simp
qed

subsection \<open>Rounding is odd, monotone, and exact on numbers\<close>

lemma fl_0: "fl 0 = 0"
  by (simp add: fl_def)

lemma binade_minus: "binade (- x) = binade x"
  by (simp add: binade_def)

lemma fl_minus: "fl (- x) = - fl x"
  by (simp add: fl_def binade_minus Let_def)

lemma fl_pos:
  assumes "0 < x"
  shows "fl x = of_int (rne (x / 2 powi (binade x - 52))) * 2 powi (binade x - 52)"
  using assms by (simp add: fl_def Let_def)

lemma powi_split: "(2::rat) powi e = 2 powi (e - 52) * 2 ^ 52"
proof -
  have "(2::rat) powi e = 2 powi ((e - 52) + 52)" by simp
  also have "\<dots> = 2 powi (e - 52) * 2 powi 52" by (rule power_int_add) simp
  finally show ?thesis by simp
qed

lemma fl_pos_bounds:
  assumes "0 < x"
  shows "2 powi (binade x) \<le> fl x \<and> fl x \<le> 2 powi (binade x + 1)"
proof -
  define e where "e = binade x"
  define u :: rat where "u = 2 powi (e - 52)"
  have upos: "0 < u" by (simp add: u_def two_powi_pos)
  have x0: "x \<noteq> 0" using assms by simp
  from binade_bounds[OF x0] assms
  have b1: "2 powi e \<le> x" and b2: "x < 2 powi (e + 1)" by (simp_all add: e_def)
  have pe: "2 powi e = u * 2 ^ 52" unfolding u_def by (rule powi_split)
  have pe1: "2 powi (e + 1) = u * 2 ^ 53"
    using powi_split[of "e + 1"] power_int_add[of "2::rat" "e - 52" 1]
    by (simp add: u_def)
  have "of_int (2 ^ 52) \<le> x / u" using b1 upos by (simp add: pe pos_le_divide_eq mult.commute)
  from rne_mono[OF this] have r1: "2 ^ 52 \<le> rne (x / u)" by (simp only: rne_of_int)
  have "x / u \<le> of_int (2 ^ 53)" using b2 upos by (simp add: pe1 pos_divide_le_eq mult.commute)
  from rne_mono[OF this] have r2: "rne (x / u) \<le> 2 ^ 53" by (simp only: rne_of_int)
  have f: "fl x = of_int (rne (x / u)) * u" using fl_pos[OF assms] by (simp add: e_def u_def)
  have "2 powi e = of_int (2 ^ 52) * u" by (simp add: pe)
  also have "\<dots> \<le> of_int (rne (x / u)) * u"
    using r1 upos by (intro mult_right_mono) (simp_all only: of_int_le_iff less_imp_le)
  finally have lo: "2 powi e \<le> fl x" by (simp add: f)
  have "of_int (rne (x / u)) * u \<le> of_int (2 ^ 53) * u"
    using r2 upos by (intro mult_right_mono) (simp_all only: of_int_le_iff less_imp_le)
  also have "\<dots> = 2 powi (e + 1)" by (simp add: pe1)
  finally have hi: "fl x \<le> 2 powi (e + 1)" by (simp add: f)
  show ?thesis using lo hi by (simp add: e_def)
qed

lemma binade_mono:
  assumes "0 < x" "x \<le> y"
  shows "binade x \<le> binade y"
proof -
  have "x \<noteq> 0" "y \<noteq> 0" using assms by simp_all
  from binade_bounds[OF this(1)] binade_bounds[OF this(2)] assms
  have "(2::rat) powi (binade x) < 2 powi (binade y + 1)" by simp
  then have "binade x < binade y + 1"
    by (metis power_int_increasing not_le one_le_numeral)
  then show ?thesis by simp
qed

lemma fl_mono_pos:
  assumes "0 < x" "x \<le> y"
  shows "fl x \<le> fl y"
proof (cases "binade x = binade y")
  case True
  have ypos: "0 < y" using assms by simp
  define u :: rat where "u = 2 powi (binade y - 52)"
  have upos: "0 < u" by (simp add: u_def two_powi_pos)
  have "x / u \<le> y / u" using assms upos by (simp add: divide_right_mono)
  from rne_mono[OF this] have "(of_int (rne (x / u)) :: rat) \<le> of_int (rne (y / u))" by simp
  then have "of_int (rne (x / u)) * u \<le> of_int (rne (y / u)) * u"
    using upos by (intro mult_right_mono) simp_all
  then show ?thesis using fl_pos[OF assms(1)] fl_pos[OF ypos] True by (simp add: u_def)
next
  case False
  have ypos: "0 < y" using assms by simp
  from False binade_mono[OF assms] have "binade x + 1 \<le> binade y" by simp
  then have "(2::rat) powi (binade x + 1) \<le> 2 powi (binade y)"
    by (intro power_int_increasing) simp_all
  with fl_pos_bounds[OF assms(1)] fl_pos_bounds[OF ypos] show ?thesis by linarith
qed

lemma fl_pos_gt0: "0 < x \<Longrightarrow> 0 < fl x"
  using fl_pos_bounds[of x] two_powi_pos[of "binade x"] by linarith

lemma fl_mono:
  assumes "x \<le> y"
  shows "fl x \<le> fl y"
proof -
  consider "0 < x" | "x = 0" "y = 0" | "x = 0" "0 < y" | "x < 0" "0 \<le> y" | "x < 0" "y < 0"
    using assms by linarith
  then show ?thesis
  proof cases
    case 1
    then show ?thesis using fl_mono_pos assms by simp
  next
    case 2
    then show ?thesis by simp
  next
    case 3
    then show ?thesis using fl_pos_gt0[of y] by (simp add: fl_0)
  next
    case 4
    have "0 < fl (- x)" using 4 by (intro fl_pos_gt0) simp
    then have "fl x < 0" by (simp add: fl_minus)
    moreover have "0 \<le> fl y"
      using 4 fl_pos_gt0[of y] by (cases "y = 0") (simp_all add: fl_0 less_imp_le)
    ultimately show ?thesis by simp
  next
    case 5
    have "fl (- y) \<le> fl (- x)" using 5 assms by (intro fl_mono_pos) simp_all
    then show ?thesis by (simp add: fl_minus)
  qed
qed

lemma fl_exact_pos:
  assumes "0 < m" "m < 2 ^ 53"
  shows "fl (of_int m * 2 powi k) = of_int m * 2 powi k"
proof -
  define x :: rat where "x = of_int m * 2 powi k"
  define e where "e = binade x"
  have xpos: "0 < x" using assms by (simp add: x_def two_powi_pos)
  then have x0: "x \<noteq> 0" by simp
  from binade_bounds[OF x0] xpos
  have b1: "2 powi e \<le> x" by (simp add: e_def)
  have "x < of_int (2 ^ 53) * 2 powi k"
    unfolding x_def using assms two_powi_pos[of k]
    by (intro mult_strict_right_mono) (simp_all only: of_int_less_iff)
  also have "\<dots> = 2 powi (53 + k)"
    using power_int_add[of "2::rat" 53 k] by simp
  finally have "(2::rat) powi e < 2 powi (53 + k)" using b1 by simp
  then have "e < 53 + k"
    by (metis power_int_increasing not_le one_le_numeral)
  then have d: "0 \<le> k - (e - 52)" by simp
  have "x / 2 powi (e - 52) = of_int m * (2 powi k / 2 powi (e - 52))" by (simp add: x_def)
  also have "2 powi k / (2::rat) powi (e - 52) = 2 powi (k - (e - 52))"
    by (simp add: power_int_diff)
  also have "\<dots> = of_int (2 ^ nat (k - (e - 52)))" using d by (simp add: two_powi_nonneg)
  finally have q: "x / 2 powi (e - 52) = of_int (m * 2 ^ nat (k - (e - 52)))" by simp
  have "fl x = of_int (rne (x / 2 powi (e - 52))) * 2 powi (e - 52)"
    using fl_pos[OF xpos] by (simp add: e_def)
  also have "\<dots> = x / 2 powi (e - 52) * 2 powi (e - 52)"
    by (simp only: q rne_of_int)
  also have "\<dots> = x" by simp
  finally show ?thesis by (simp add: x_def)
qed

lemma fl_exact:
  assumes "\<bar>m\<bar> < 2 ^ 53"
  shows "fl (of_int m * 2 powi k) = of_int m * 2 powi k"
proof -
  consider "0 < m" | "m = 0" | "m < 0" by linarith
  then show ?thesis
  proof cases
    case 1
    then show ?thesis using assms by (intro fl_exact_pos) simp_all
  next
    case 2
    then show ?thesis by (simp add: fl_0)
  next
    case 3
    then have "fl (of_int (- m) * 2 powi k) = of_int (- m) * 2 powi k"
      using assms by (intro fl_exact_pos) simp_all
    then have "fl (- (of_int m * 2 powi k)) = - (of_int m * 2 powi k)" by simp
    then show ?thesis by (simp only: fl_minus neg_equal_iff_equal)
  qed
qed

section \<open>Properties of the generator\<close>

lemma uint_xor_push_bit:
  "uint (x XOR push_bit n x) = uint x XOR ((uint x * 2 ^ n) mod 2 ^ 32)" for x :: u32
  by (simp add: uint_xor unsigned_push_bit_eq take_bit_eq_mod
      push_bit_eq_mult [where ?'a = int])

lemma uint_xor_drop_bit:
  "uint (x XOR drop_bit n x) = uint x XOR (uint x div 2 ^ n)" for x :: u32
  by (simp add: uint_xor unsigned_drop_bit_eq drop_bit_eq_div [where ?'a = int]
      take_bit_word_eq_self flip: unsigned_take_bit_eq)

lemma uint_xorshift: "uint (xorshift w) = spec_advance (uint w)"
  unfolding xorshift_def spec_advance_def Let_def uint_xor_push_bit uint_xor_drop_bit ..

lemma fdiv_uint_exact: "fdiv (of_int (uint (s :: u32))) 4294967296 = of_int (uint s) / 4294967296"
proof -
  have "uint s < 2 ^ 32" using uint_bounded[of s] by simp
  then have "\<bar>uint s\<bar> < 2 ^ 53" using uint_nonnegative[of s] by simp
  from fl_exact[OF this, of "- 32"] show ?thesis
    unfolding fdiv_def by (simp add: power_int_minus_divide del: of_int_uint)
qed

lemma nextFloat_eq:
  "nextFloat g = (of_int (uint (xorshift (state g))) / 4294967296, g\<lparr>state := xorshift (state g)\<rparr>)"
  unfolding nextFloat_def Let_def fdiv_uint_exact ..

lemma nextFloat_range: "0 \<le> fst (nextFloat g) \<and> fst (nextFloat g) < 1"
  using uint_bounded[of "xorshift (state g)"] uint_nonnegative[of "xorshift (state g)"]
  by (simp add: nextFloat_eq del: of_int_uint)

lemma new_Xorshift32_state:
  "uint (state (new_Xorshift32 seed)) = (if seed mod 2 ^ 32 = 0 then 1 else seed mod 2 ^ 32)"
  by (simp add: new_Xorshift32_def Let_def word_uint_eq_iff uint_word_of_int)

lemma state_stream_after: "state (stream_after n g) = (xorshift ^^ n) (state g)"
  by (induction n arbitrary: g) (simp_all add: nextFloat_eq funpow_swap1)

lemma stream_after_add: "stream_after (m + n) g = stream_after n (stream_after m g)"
  by (induction m arbitrary: g) simp_all

lemma xorshift_xor: "xorshift (x XOR y) = xorshift x XOR xorshift y"
  by (simp add: xorshift_def Let_def ac_simps)

lemma take_bit_Suc_xor:
  "take_bit (Suc n) y = take_bit n y XOR (if bit y n then 2 ^ n else 0)" for y :: u32
  by (rule bit_eqI) (auto simp: bit_simps less_Suc_eq)

lemma xor_linear_surj:
  fixes f :: "u32 \<Rightarrow> u32"
  assumes lin: "\<And>x y. f (x XOR y) = f x XOR f y"
    and units: "\<And>i. i < 32 \<Longrightarrow> 2 ^ i \<in> range f"
  shows "surj f"
proof -
  have "f 0 = f 0 XOR f 0" using lin[of 0 0] by simp
  then have zero: "0 \<in> range f" by (simp add: image_iff) (metis)
  have closed: "a XOR b \<in> range f" if "a \<in> range f" "b \<in> range f" for a b
    using that lin by (auto simp: image_iff) metis
  have tb: "take_bit n y \<in> range f" if "n \<le> 32" for n y
    using that
  proof (induction n)
    case 0
    then show ?case using zero by simp
  next
    case (Suc n)
    then have "take_bit n y \<in> range f" by simp
    moreover have "(if bit y n then 2 ^ n else 0) \<in> range f"
      using Suc.prems zero units[of n] by simp
    ultimately show ?case by (simp only: take_bit_Suc_xor closed)
  qed
  have "y \<in> range f" for y
    using tb[of 32 y] by (simp add: take_bit_word_eq_self)
  then show ?thesis by auto
qed

lemma upt_32: "[0..<32] = [0, 1, 2, 3, 4, 5, 6, 7, 8, 9, 10, 11, 12, 13, 14, 15, 16, 17, 18, 19,
    20, 21, 22, 23, 24, 25, 26, 27, 28, 29, 30, 31]"
  by (simp add: upt_rec)

lemma xorshift_preimages: "map xorshift xorshift_preimages = map ((^) 2) [0..<32]"
  unfolding upt_32 by (simp add: xorshift_preimages_def xorshift_def)

lemma xor_linear_bij:
  fixes f :: "u32 \<Rightarrow> u32"
  assumes lin: "\<And>x y. f (x XOR y) = f x XOR f y"
    and tbl: "map f ms = map ((^) 2) [0..<32]"
  shows "bij f"
proof -
  have len: "length ms = 32" using arg_cong[OF tbl, of length] by simp
  have "2 ^ i \<in> range f" if "i < 32" for i
  proof -
    have "f (ms ! i) = map f ms ! i" using that len by simp
    also have "\<dots> = 2 ^ i" using that by (simp add: tbl)
    finally show ?thesis by (metis rangeI)
  qed
  with lin have s: "surj f" by (rule xor_linear_surj)
  then have "inj f" by (intro finite_UNIV_surj_inj) simp_all
  with s show ?thesis by (simp add: bij_def)
qed

lemma bij_xorshift: "bij xorshift"
  using xorshift_xor xorshift_preimages by (rule xor_linear_bij)

lemma xorshift_0: "xorshift 0 = 0"
  by (simp add: xorshift_def)

lemma xorshift_eq_0_iff: "xorshift s = 0 \<longleftrightarrow> s = 0"
  using bij_xorshift xorshift_0 by (metis bij_def injD)

lemma fixpoint_preimages:
  "map (\<lambda>x. xorshift x XOR x) fixpoint_preimages = map ((^) 2) [0..<32]"
  unfolding upt_32 by (simp add: fixpoint_preimages_def xorshift_def)

lemma xorshift_fixpoint_iff: "xorshift s = s \<longleftrightarrow> s = 0"
proof
  assume fp: "xorshift s = s"
  define h where "h = (\<lambda>x. xorshift x XOR x)"
  have "bij h"
    unfolding h_def
    by (rule xor_linear_bij[OF _ fixpoint_preimages]) (simp add: xorshift_xor ac_simps)
  then have "inj h" by (simp add: bij_def)
  moreover have "h s = h 0" using fp by (simp add: h_def xorshift_0)
  ultimately show "s = 0" by (rule injD)
next
  assume "s = 0"
  then show "xorshift s = s" by (simp add: xorshift_0)
qed

lemma new_Xorshift32_nonzero: "state (new_Xorshift32 seed) \<noteq> 0"
  by (simp add: new_Xorshift32_def Let_def)

lemma funpow_xorshift_nonzero: "s \<noteq> 0 \<Longrightarrow> (xorshift ^^ n) s \<noteq> 0"
  by (induction n) (simp_all add: xorshift_eq_0_iff)

lemma nextFloat_pos:
  assumes "state g \<noteq> 0"
  shows "0 < fst (nextFloat g)"
proof -
  have "xorshift (state g) \<noteq> 0" using assms by (simp add: xorshift_eq_0_iff)
  then have "uint (xorshift (state g)) \<noteq> 0" by (simp add: uint_0_iff)
  with uint_nonnegative[of "xorshift (state g)"] have "0 < uint (xorshift (state g))" by linarith
  then show ?thesis by (simp add: nextFloat_eq del: of_int_uint)
qed

section \<open>The loops in closed form\<close>

lemma tri_Suc: "tri (Suc r) = tri r + Suc r"
  by (simp add: tri_def)

lemma nth_draw_Suc_Suc: "nth_draw (Suc (Suc k)) g = nth_draw (Suc k) (snd (nextFloat g))"
  by (simp add: nth_draw_def)

lemma nth_draw_after: "nth_draw (Suc k) (stream_after m g) = nth_draw (m + k + 1) g"
  by (simp add: nth_draw_def stream_after_add)

lemma row_loop_closed:
  "c \<le> Suc r \<Longrightarrow>
   row_loop r c acc g =
     (acc @ map (\<lambda>i. peg_of (nth_draw (Suc i) g)) [0..<Suc r - c],
      stream_after (Suc r - c) g)"
proof (induction "Suc r - c" arbitrary: c acc g)
  case 0
  then have "\<not> c \<le> r" by simp
  with 0 show ?case by (simp add: row_loop.simps)
next
  case (Suc n)
  then have c: "c \<le> r" and n: "n = Suc r - (c + 1)" by simp_all
  have len: "Suc r - c = Suc n" using Suc by simp
  have "row_loop r c acc g =
      row_loop r (c + 1) (acc @ [peg_of (fst (nextFloat g))]) (snd (nextFloat g))"
    using c by (subst row_loop.simps) (simp add: peg_of_def split: prod.split)
  also have "\<dots> = ((acc @ [peg_of (fst (nextFloat g))]) @
        map (\<lambda>i. peg_of (nth_draw (Suc i) (snd (nextFloat g)))) [0..<n],
      stream_after n (snd (nextFloat g)))"
    using Suc.hyps(1)[OF n] c n by simp
  also have "\<dots> = (acc @ map (\<lambda>i. peg_of (nth_draw (Suc i) g)) [0..<Suc n],
      stream_after (Suc n) g)"
    by (simp add: upt_conv_Cons map_Suc_upt[symmetric] nth_draw_Suc_Suc nth_draw_def
        del: upt_Suc)
  finally show ?case by (simp only: len)
qed

lemma row_loop_row:
  "row_loop r 0 [] (stream_after (tri r) g0) = (spec_row g0 r, stream_after (tri (Suc r)) g0)"
  by (simp add: row_loop_closed spec_row_def nth_draw_after tri_Suc
      stream_after_add[symmetric] del: upt_Suc)

lemma pegMap_loop_closed:
  "r \<le> ROWS \<Longrightarrow>
   pegMap_loop r pm (stream_after (tri r) g0) =
     (pm @ map (spec_row g0) [r..<ROWS], stream_after (tri ROWS) g0)"
proof (induction "ROWS - r" arbitrary: r pm)
  case 0
  then have "r = ROWS" by simp
  then show ?case by (simp add: pegMap_loop.simps)
next
  case (Suc n)
  then have r: "r < ROWS" and n: "n = ROWS - Suc r" by simp_all
  have "pegMap_loop r pm (stream_after (tri r) g0) =
      pegMap_loop (Suc r) (pm @ [spec_row g0 r]) (stream_after (tri (Suc r)) g0)"
    using r by (subst pegMap_loop.simps) (simp add: row_loop_row)
  also have "\<dots> = ((pm @ [spec_row g0 r]) @ map (spec_row g0) [Suc r..<ROWS],
      stream_after (tri ROWS) g0)"
    using Suc.hyps(1)[OF n] r by simp
  also have "\<dots> = (pm @ map (spec_row g0) [r..<ROWS], stream_after (tri ROWS) g0)"
    using r by (simp add: upt_conv_Cons)
  finally show ?case .
qed

lemma pegMap_loop_0:
  "pegMap_loop 0 [] g0 = (map (spec_row g0) [0..<12], stream_after 78 g0)"
  using pegMap_loop_closed[of 0 "[]" g0] by (simp add: tri_def ROWS_def)

lemma triangular_peg_at:
  assumes "triangular pm" "r < ROWS" "i \<le> r"
  shows "peg_at pm r i = Inr (pm ! r ! i)"
proof -
  have len: "length pm = ROWS" using arg_cong[OF assms(1)[unfolded triangular_def], of length] by simp
  have "map length pm ! r = map Suc [0..<ROWS] ! r" using assms(1) by (simp add: triangular_def)
  then have "length (pm ! r) = Suc r" using assms(2) len by simp
  then show ?thesis using assms len by (simp add: peg_at_def)
qed

lemma floor_half_ROWS: "Math_floor (fdiv (of_nat ROWS) 2) = of_int \<lfloor>12 / 2 :: rat\<rfloor>"
proof -
  have "fl (of_int 6 * 2 powi 0) = of_int 6 * 2 powi 0" by (rule fl_exact) simp
  then show ?thesis by (simp add: Math_floor_def fdiv_def ROWS_def)
qed

lemma biasPrime_of_spec:
  "biasPrime_of (pm ! r ! min pos r) dropColumn = spec_biasPrime pm dropColumn r pos"
  by (simp add: biasPrime_of_def spec_biasPrime_def adj_of_def floor_half_ROWS clamp_def
      Let_def max_def min_def)

lemma run_loop_step:
  assumes "triangular pm" "r < ROWS"
  shows "run_loop pm dropColumn r pth pos g =
     (case spec_row_step pm dropColumn (pth, pos, g) r of
        (pth', pos', g') \<Rightarrow> run_loop pm dropColumn (Suc r) pth' pos' g')"
proof -
  have "peg_at pm r (min pos r) = Inr (pm ! r ! min pos r)"
    using assms by (intro triangular_peg_at) simp_all
  then show ?thesis
    using assms(2)
    by (subst run_loop.simps)
      (simp add: spec_row_step_def biasPrime_of_spec split: prod.split)
qed

lemma run_loop_fold:
  "triangular pm \<Longrightarrow> r \<le> ROWS \<Longrightarrow>
   run_loop pm dropColumn r pth pos g =
     Inr (foldl (spec_row_step pm dropColumn) (pth, pos, g) [r..<ROWS])"
proof (induction "ROWS - r" arbitrary: r pth pos g)
  case 0
  then show ?case by (simp add: run_loop.simps)
next
  case (Suc n)
  then have r: "r < ROWS" and n: "n = ROWS - Suc r" by simp_all
  obtain pth' pos' g' where st: "spec_row_step pm dropColumn (pth, pos, g) r = (pth', pos', g')"
    by (cases "spec_row_step pm dropColumn (pth, pos, g) r") auto
  have "run_loop pm dropColumn r pth pos g = run_loop pm dropColumn (Suc r) pth' pos' g'"
    using run_loop_step[OF Suc.prems(1) r] st by simp
  also have "\<dots> = Inr (foldl (spec_row_step pm dropColumn) (pth', pos', g') [Suc r..<ROWS])"
    using Suc.hyps(1)[OF n Suc.prems(1)] r by simp
  also have "\<dots> = Inr (foldl (spec_row_step pm dropColumn) (pth, pos, g) [r..<ROWS])"
    using r st by (simp add: upt_conv_Cons)
  finally show ?case .
qed

lemma run_loop_spec_walk:
  "triangular pm \<Longrightarrow> run_loop pm dropColumn 0 [] 0 g = Inr (spec_walk pm dropColumn g ROWS)"
  by (simp add: run_loop_fold spec_walk_def)

lemma rights_Nil: "rights [] = 0"
  by (simp add: rights_def)

lemma rights_snoc: "rights (p @ [m]) = rights p + (if m = Right then 1 else 0)"
  by (simp add: rights_def)

lemma rights_le_length: "rights p \<le> length p"
  by (simp add: rights_def)

lemma stream_after_Suc: "stream_after (Suc n) g = snd (nextFloat (stream_after n g))"
  using stream_after_add[of n 1 g] by simp

lemma spec_row_step_eq:
  "spec_row_step pm dropColumn (pth, pos, g) r =
     (pth @ [spec_decision pm dropColumn r pos (fst (nextFloat g))],
      pos + (if spec_decision pm dropColumn r pos (fst (nextFloat g)) = Right then 1 else 0),
      snd (nextFloat g))"
  by (simp add: spec_row_step_def spec_decision_def split: prod.split)

lemma spec_walk_0: "spec_walk pm dropColumn g 0 = ([], 0, g)"
  by (simp add: spec_walk_def)

lemma spec_walk_Suc:
  "spec_walk pm dropColumn g (Suc n) = spec_row_step pm dropColumn (spec_walk pm dropColumn g n) n"
  by (simp add: spec_walk_def)

lemma spec_walk_inv:
  "length (fst (spec_walk pm dropColumn g n)) = n
   \<and> fst (snd (spec_walk pm dropColumn g n)) = rights (fst (spec_walk pm dropColumn g n))
   \<and> snd (snd (spec_walk pm dropColumn g n)) = stream_after n g"
proof (induction n)
  case 0
  show ?case by (simp add: spec_walk_0 rights_Nil)
next
  case (Suc n)
  obtain pth pos g' where st: "spec_walk pm dropColumn g n = (pth, pos, g')"
    by (cases "spec_walk pm dropColumn g n") auto
  with Suc show ?case
    by (simp add: spec_walk_Suc spec_row_step_eq rights_snoc stream_after_Suc
        del: stream_after.simps)
qed

lemma spec_walk_path_Suc:
  "fst (spec_walk pm dropColumn g (Suc n)) =
     fst (spec_walk pm dropColumn g n) @
       [spec_decision pm dropColumn n (rights (fst (spec_walk pm dropColumn g n)))
          (nth_draw (Suc n) g)]"
proof -
  obtain pth pos g' where st: "spec_walk pm dropColumn g n = (pth, pos, g')"
    by (cases "spec_walk pm dropColumn g n") auto
  with spec_walk_inv[of pm dropColumn g n] show ?thesis
    by (simp add: spec_walk_Suc spec_row_step_eq nth_draw_def)
qed

lemma spec_walk_prefix:
  "n \<le> k \<Longrightarrow> take n (fst (spec_walk pm dropColumn g k)) = fst (spec_walk pm dropColumn g n)"
proof (induction k)
  case 0
  then show ?case by (simp add: spec_walk_0)
next
  case (Suc k)
  show ?case
  proof (cases "n = Suc k")
    case True
    then show ?thesis using spec_walk_inv[of pm dropColumn g "Suc k"] by simp
  next
    case False
    with Suc.prems have nk: "n \<le> k" by simp
    have "length (fst (spec_walk pm dropColumn g k)) = k"
      using spec_walk_inv[of pm dropColumn g k] by simp
    with nk Suc.IH show ?thesis by (simp add: spec_walk_path_Suc)
  qed
qed

lemma spec_walk_nth:
  assumes "r < k"
  shows "fst (spec_walk pm dropColumn g k) ! r =
     spec_decision pm dropColumn r (rights (take r (fst (spec_walk pm dropColumn g k))))
       (nth_draw (Suc r) g)"
proof -
  have len: "length (fst (spec_walk pm dropColumn g r)) = r"
    using spec_walk_inv[of pm dropColumn g r] by simp
  have "fst (spec_walk pm dropColumn g k) ! r = take (Suc r) (fst (spec_walk pm dropColumn g k)) ! r"
    by simp
  also have "\<dots> = fst (spec_walk pm dropColumn g (Suc r)) ! r"
    using assms by (simp add: spec_walk_prefix)
  also have "\<dots> = spec_decision pm dropColumn r (rights (fst (spec_walk pm dropColumn g r)))
       (nth_draw (Suc r) g)"
    using len by (simp add: spec_walk_path_Suc nth_append)
  also have "fst (spec_walk pm dropColumn g r) = take r (fst (spec_walk pm dropColumn g k))"
    using assms by (simp add: spec_walk_prefix)
  finally show ?thesis .
qed

lemma length_spec_row: "length (spec_row g0 r) = Suc r"
  by (simp add: spec_row_def)

lemma triangular_built: "triangular (fst (pegMap_loop 0 [] g0))"
  by (simp add: pegMap_loop_0 triangular_def ROWS_def length_spec_row comp_def)

lemma built_nth:
  assumes "r < 12" "c \<le> r"
  shows "fst (pegMap_loop 0 [] g0) ! r ! c = peg_of (nth_draw (tri r + c + 1) g0)"
proof -
  have "fst (pegMap_loop 0 [] g0) ! r = spec_row g0 r"
    using assms(1) by (simp add: pegMap_loop_0)
  moreover have "spec_row g0 r ! c = peg_of (nth_draw (tri r + c + 1) g0)"
    using assms(2) unfolding spec_row_def by (subst nth_map) (simp_all del: upt_Suc)
  ultimately show ?thesis by simp
qed

lemma floor_rat_numeral_div: "\<lfloor>numeral a / numeral b :: rat\<rfloor> = numeral a div numeral b"
  by (metis floor_divide_of_int_eq of_int_numeral)

lemma ceiling_rat_numeral_div: "\<lceil>numeral a / numeral b :: rat\<rceil> = - (- numeral a div numeral b)"
  by (metis ceiling_divide_eq_div of_int_numeral)

lemmas fl_eval = fl_def binade_def compute_bitlen rne_def Let_def
  floor_rat_numeral_div ceiling_rat_numeral_div

lemma fl_half: "fl (1/2) = 1/2" "fl (- (1/2)) = - (1/2)"
  by (simp_all add: fl_eval)

lemma fl_one: "fl 1 = 1"
  by (simp add: fl_eval)

lemma fl_2_10:
  "fl (2/10) = 3602879701896397 / 18014398509481984"
  "fl (1/5) = 3602879701896397 / 18014398509481984"
  by (simp_all add: fl_eval)

lemma fl_1_10: "fl (3602879701896397 / 36028797018963968) = 3602879701896397 / 36028797018963968"
  by (simp add: fl_eval)

lemma fl_lo: "fl (1/2 - 3602879701896397 / 36028797018963968) = 3602879701896397 / 9007199254740992"
  by (simp add: fl_eval)

lemma fl_hi: "fl (1/2 + 3602879701896397 / 36028797018963968) = 5404319552844595 / 9007199254740992"
  by (simp add: fl_eval)

lemma leftBias_of_bounds:
  assumes "0 \<le> d" "d < 1"
  shows "4/10 \<le> leftBias_of d \<and> leftBias_of d \<le> 6/10"
proof -
  define t where "t = fsub d (1/2)"
  define y where "y = fmul t (fl (2/10))"
  have t: "- (1/2) \<le> t" "t \<le> 1/2"
    using fl_mono[of "- (1/2)" "d - 1/2"] fl_mono[of "d - 1/2" "1/2"] assms
    by (simp_all add: t_def fsub_def fl_half)
  have "- (3602879701896397 / 36028797018963968) \<le> t * fl (2/10)"
    "t * fl (2/10) \<le> 3602879701896397 / 36028797018963968"
    using t by (simp_all add: fl_2_10)
  from fl_mono[OF this(1)] fl_mono[OF this(2)]
  have y: "- (3602879701896397 / 36028797018963968) \<le> y"
    "y \<le> 3602879701896397 / 36028797018963968"
    by (simp_all add: y_def fmul_def fl_minus fl_1_10)
  have "1/2 - 3602879701896397 / 36028797018963968 \<le> 1/2 + y"
    "1/2 + y \<le> 1/2 + 3602879701896397 / 36028797018963968"
    using y by simp_all
  from fl_mono[OF this(1)] fl_mono[OF this(2)]
  have "3602879701896397 / 9007199254740992 \<le> fadd (1/2) y"
    "fadd (1/2) y \<le> 5404319552844595 / 9007199254740992"
    by (simp_all only: fadd_def fl_lo fl_hi)
  then show ?thesis by (simp add: leftBias_of_def y_def t_def)
qed

lemma fl_nat: "fl 1000000 = 1000000" "fl 0 = 0"
  by (simp_all add: fl_eval)

lemma roundedBias_of_bounds:
  assumes "0 \<le> b" "b \<le> 1"
  shows "Math_round (fmul b 1000000) = of_int (round_half_away (fmul b 1000000))
    \<and> 0 \<le> roundedBias_of b \<and> roundedBias_of b \<le> 1"
proof -
  define x where "x = fmul b 1000000"
  have x: "0 \<le> x" "x \<le> 1000000"
    using fl_mono[of 0 "b * 1000000"] fl_mono[of "b * 1000000" 1000000] assms
    by (simp_all add: x_def fmul_def fl_nat)
  define n where "n = \<lfloor>x + 1/2\<rfloor>"
  have n: "0 \<le> n" "n \<le> 1000000" using x unfolding n_def by linarith+
  have r: "Math_round x = of_int (round_half_away x)"
    using x by (simp add: Math_round_def round_half_away_def)
  have "0 \<le> (of_int n :: rat) / 1000000" "(of_int n :: rat) / 1000000 \<le> 1" using n by simp_all
  from fl_mono[OF this(1)] fl_mono[OF this(2)]
  have "0 \<le> fdiv (of_int n) 1000000" "fdiv (of_int n) 1000000 \<le> 1"
    by (simp_all add: fdiv_def fl_nat fl_one)
  then show ?thesis using r by (simp add: roundedBias_of_def Math_round_def x_def n_def)
qed

lemma readUInt32BE0_Inr:
  "4 \<le> length buffer \<Longrightarrow> \<exists>n. readUInt32BE0 buffer = Inr n \<and> 0 \<le> n \<and> n < 2 ^ 32"
proof -
  assume "4 \<le> length buffer"
  then obtain b0 b1 b2 b3 bs where b: "buffer = b0 # b1 # b2 # b3 # bs"
    by (cases buffer; cases "tl buffer"; cases "tl (tl buffer)"; cases "tl (tl (tl buffer))") auto
  have "uint b0 < 256" "uint b1 < 256" "uint b2 < 256" "uint b3 < 256"
    using uint_bounded[of b0] uint_bounded[of b1] uint_bounded[of b2] uint_bounded[of b3]
    by simp_all
  moreover have "0 \<le> uint b0" "0 \<le> uint b1" "0 \<le> uint b2" "0 \<le> uint b3" by simp_all
  ultimately show ?thesis by (simp add: b readUInt32BE0_def)
qed

lemma seedInt_of_total:
  assumes "4 \<le> length (hex_decode s) \<or> 4 \<le> length (hex_decode (sha256 s))"
  shows "\<exists>n. seedInt_of sha256 s = Inr n \<and> 0 \<le> n \<and> n < 2 ^ 32"
proof (cases "length (hex_decode s) < 4")
  case True
  with assms have "4 \<le> length (hex_decode (sha256 s))" by simp
  from readUInt32BE0_Inr[OF this] True show ?thesis
    by (simp add: seedInt_of_def seed_buffer_def Buffer_from_hex_def)
next
  case False
  then have "4 \<le> length (hex_decode s)" by simp
  from readUInt32BE0_Inr[OF this] False show ?thesis
    by (simp add: seedInt_of_def seed_buffer_def Buffer_from_hex_def)
qed

lemma createGameEngine_eq:
  "createGameEngine sha256 stringify s =
     (case seedInt_of sha256 s of
        Inl e \<Rightarrow> Inl e
      | Inr seedInt \<Rightarrow>
          Inr \<lparr>pegMap = fst (pegMap_loop 0 [] (new_Xorshift32 seedInt)),
               pegMapHash = sha256 (stringify (fst (pegMap_loop 0 [] (new_Xorshift32 seedInt)))),
               prng = stream_after 78 (new_Xorshift32 seedInt)\<rparr>)"
  by (simp add: createGameEngine_def pegMap_loop_0 split: sum.split)

lemma run_eq:
  assumes "triangular (pegMap eng)"
  shows "run eng dropColumn =
     Inr (\<lparr>res_pegMapHash = pegMapHash eng,
            path = fst (spec_walk (pegMap eng) dropColumn (prng eng) 12),
            binIndex = rights (fst (spec_walk (pegMap eng) dropColumn (prng eng) 12)),
            res_pegMap = pegMap eng\<rparr>,
          eng\<lparr>prng := stream_after 12 (prng eng)\<rparr>)"
proof -
  obtain pth pos g where w: "spec_walk (pegMap eng) dropColumn (prng eng) 12 = (pth, pos, g)"
    by (cases "spec_walk (pegMap eng) dropColumn (prng eng) 12") auto
  with spec_walk_inv[of "pegMap eng" dropColumn "prng eng" 12]
  have "pos = rights pth" "g = stream_after 12 (prng eng)" by simp_all
  with w run_loop_spec_walk[OF assms, of dropColumn "prng eng"] show ?thesis
    by (simp add: run_def ROWS_def)
qed

section \<open>The engine as a whole\<close>

lemma createGameEngine_InrD:
  assumes "createGameEngine sha256 stringify s = Inr eng"
  shows "\<exists>seedInt. seedInt_of sha256 s = Inr seedInt
    \<and> pegMap eng = fst (pegMap_loop 0 [] (new_Xorshift32 seedInt))
    \<and> pegMapHash eng = sha256 (stringify (pegMap eng))
    \<and> prng eng = stream_after 78 (new_Xorshift32 seedInt)"
  using assms by (auto simp: createGameEngine_eq split: sum.splits)

lemma spec_walk_rights_step:
  assumes "r < k"
  shows "rights (take (Suc r) (fst (spec_walk pm dropColumn g k))) =
     rights (take r (fst (spec_walk pm dropColumn g k))) +
       (if fst (spec_walk pm dropColumn g k) ! r = Right then 1 else 0)"
proof -
  have "length (fst (spec_walk pm dropColumn g k)) = k"
    using spec_walk_inv[of pm dropColumn g k] by simp
  with assms show ?thesis by (simp add: take_Suc_conv_app_nth rights_snoc)
qed

lemma run_loop_resume:
  assumes "triangular pm" "r \<le> 12"
  shows "run_loop pm dropColumn r (take r (fst (spec_walk pm dropColumn g 12)))
       (rights (take r (fst (spec_walk pm dropColumn g 12)))) (stream_after r g) =
     run_loop pm dropColumn 0 [] 0 g"
proof -
  have w: "spec_walk pm dropColumn g r =
      (take r (fst (spec_walk pm dropColumn g 12)),
       rights (take r (fst (spec_walk pm dropColumn g 12))), stream_after r g)"
    using spec_walk_inv[of pm dropColumn g r] spec_walk_prefix[OF assms(2), of pm dropColumn g]
    by (cases "spec_walk pm dropColumn g r") simp
  have split: "[0..<12] = [0..<r] @ [r..<12]"
    using assms(2) by (metis le0 upt_add_eq_append le_add_diff_inverse)
  have "run_loop pm dropColumn r (take r (fst (spec_walk pm dropColumn g 12)))
       (rights (take r (fst (spec_walk pm dropColumn g 12)))) (stream_after r g) =
     Inr (foldl (spec_row_step pm dropColumn) (spec_walk pm dropColumn g r) [r..<12])"
    using run_loop_fold[OF assms(1), of r] assms(2) by (simp only: w ROWS_def)
  also have "\<dots> = Inr (spec_walk pm dropColumn g 12)"
    unfolding spec_walk_def by (simp only: foldl_append[symmetric] split[symmetric])
  also have "\<dots> = run_loop pm dropColumn 0 [] 0 g"
    using run_loop_spec_walk[OF assms(1)] by (simp add: ROWS_def)
  finally show ?thesis .
qed

lemma spec_bias_eq: "spec_bias d = leftBias_of d"
  by (simp add: spec_bias_def leftBias_of_def)

lemma nth_draw_range: "0 \<le> nth_draw k g \<and> nth_draw k g < 1"
  unfolding nth_draw_def by (rule nextFloat_range)

lemma row_major_order:
  "concat (map (\<lambda>r. map (\<lambda>c. tri r + c + 1) [0..<Suc r]) [0..<12]) = [1..<79]"
  by (simp add: tri_def upt_rec)


section \<open>Rounding errors and the integer formulas\<close>

lemma rne_error: "\<bar>of_int (rne y) - y\<bar> \<le> 1/2"
proof -
  define f where "f = \<lfloor>y\<rfloor>"
  have f: "of_int f \<le> y" "y < of_int f + 1" unfolding f_def by linarith+
  have "rne y = (if y - of_int f < 1/2 then f else if 1/2 < y - of_int f then f + 1
      else if even f then f else f + 1)"
    by (simp add: rne_def Let_def f_def)
  then show ?thesis using f by (simp add: abs_if split: if_splits)
qed

lemma fl_error_pos:
  assumes "0 < x"
  shows "\<bar>fl x - x\<bar> \<le> x / 2 ^ 53"
proof -
  define u :: rat where "u = 2 powi (binade x - 52)"
  have upos: "0 < u" by (simp add: u_def two_powi_pos)
  have x0: "x \<noteq> 0" using assms by simp
  have "2 powi (binade x) \<le> x" using binade_bounds[OF x0] assms by simp
  then have ux: "u * 2 ^ 52 \<le> x" using powi_split[of "binade x"] by (simp add: u_def)
  have "fl x - x = (of_int (rne (x / u)) - x / u) * u"
    using fl_pos[OF assms] upos by (simp add: u_def algebra_simps)
  then have "\<bar>fl x - x\<bar> = \<bar>of_int (rne (x / u)) - x / u\<bar> * u"
    using upos by (simp add: abs_mult)
  also have "\<dots> \<le> 1/2 * u"
    using rne_error[of "x / u"] upos by (intro mult_right_mono) simp_all
  also have "\<dots> \<le> x / 2 ^ 53" using ux by simp
  finally show ?thesis .
qed

lemma fl_error: "\<bar>fl x - x\<bar> \<le> \<bar>x\<bar> / 2 ^ 53"
proof -
  consider "0 < x" | "x = 0" | "x < 0" by linarith
  then show ?thesis
  proof cases
    case 1
    then show ?thesis using fl_error_pos[of x] by simp
  next
    case 2
    then show ?thesis by (simp add: fl_0)
  next
    case 3
    then have "\<bar>fl (- x) - (- x)\<bar> \<le> (- x) / 2 ^ 53" by (intro fl_error_pos) simp
    then show ?thesis using 3 by (simp add: fl_minus abs_if split: if_splits)
  qed
qed

lemma roundedBias_of_micro: "roundedBias_of b = fdiv (of_int (micro b)) 1000000"
  by (simp add: roundedBias_of_def Math_round_def micro_def)

lemma fsub_half_exact:
  assumes "0 \<le> k" "k < 2 ^ 32"
  shows "fsub (of_int k / 2 ^ 32) (1/2) = of_int k / 2 ^ 32 - 1/2"
proof -
  have "\<bar>k - 2 ^ 31\<bar> < 2 ^ 53" using assms by simp
  from fl_exact[OF this, of "- 32"]
  have "fl (of_int (k - 2 ^ 31) / 2 ^ 32) = of_int (k - 2 ^ 31) / 2 ^ 32"
    by (simp add: power_int_minus_divide)
  moreover have "(of_int (k - 2 ^ 31) :: rat) / 2 ^ 32 = of_int k / 2 ^ 32 - 1/2"
    by (simp add: field_simps)
  ultimately show ?thesis by (simp only: fsub_def)
qed

lemma abs_leD: "\<bar>a\<bar> \<le> b \<Longrightarrow> - b \<le> a \<and> a \<le> (b::rat)"
  by (simp add: abs_le_iff)

lemma product_error:
  assumes "0 \<le> k" "k < 2 ^ 32"
  shows "\<bar>fmul (leftBias_of (of_int k / 2 ^ 32)) 1000000
      - (500000 + (of_int k - 2 ^ 31) * 3125 / 2 ^ 26)\<bar> < 1 / 2 ^ 27"
proof -
  define t :: rat where "t = of_int k / 2 ^ 32 - 1/2"
  define C :: rat where "C = 3602879701896397 / 18014398509481984"
  define y where "y = fl (t * C)"
  define lb where "lb = fl (1/2 + y)"
  define p where "p = fl (lb * 1000000)"
  define tc where "tc = t * C"
  define e0 :: rat where "e0 = 1 / (10 * 2 ^ 54)"
  define e1 :: rat where "e1 = (11/100) / 2 ^ 53"
  define e2 :: rat where "e2 = (62/100) / 2 ^ 53"
  define e3 :: rat where "e3 = 630000 / 2 ^ 53"
  have num: "e3 + 1000000 * (e2 + e1 + e0) < 1 / 2 ^ 27" "0 \<le> e1" "e1 \<le> 1/100" "0 \<le> e2" "e2 \<le> 1/100"
    by (simp_all add: e0_def e1_def e2_def e3_def)
  have k: "(0::rat) \<le> of_int k" "(of_int k :: rat) < 2 ^ 32"
    using assms by simp_all
  have t: "- (1/2) \<le> t" "t \<le> 1/2" using k unfolding t_def by simp_all
  have "tc = t * (3602879701896397 / 18014398509481984)" by (simp add: tc_def C_def)
  with t have tc: "- (11/100) \<le> tc" "tc \<le> 11/100" by simp_all
  have "tc - t / 5 = t * (3602879701896397 / 18014398509481984 - 1 / 5)" 
    by (simp add: tc_def C_def algebra_simps)
  also have "\<dots> = t * (1 / (5 * 2 ^ 54))" by simp
  finally have "tc - t / 5 = t / (5 * 2 ^ 54)" by simp
  with t have tc5: "- e0 \<le> tc - t / 5" "tc - t / 5 \<le> e0" by (simp_all add: e0_def)
  have "\<bar>y - tc\<bar> \<le> \<bar>tc\<bar> / 2 ^ 53" unfolding y_def tc_def by (rule fl_error)
  also have "\<dots> \<le> e1" using tc by (simp add: abs_if e1_def)
  finally have "- e1 \<le> y - tc \<and> y - tc \<le> e1" by (rule abs_leD)
  then have ey: "- e1 \<le> y - tc" "y - tc \<le> e1" by simp_all
  have yb: "- (12/100) \<le> y" "y \<le> 12/100" using ey tc num by linarith+
  have "\<bar>lb - (1/2 + y)\<bar> \<le> \<bar>1/2 + y\<bar> / 2 ^ 53" unfolding lb_def by (rule fl_error)
  also have "\<dots> \<le> e2" using yb by (simp add: abs_if e2_def)
  finally have "- e2 \<le> lb - (1/2 + y) \<and> lb - (1/2 + y) \<le> e2" by (rule abs_leD)
  then have el: "- e2 \<le> lb - (1/2 + y)" "lb - (1/2 + y) \<le> e2" by simp_all
  have lbb: "0 \<le> lb" "lb \<le> 63/100" using el yb num by linarith+
  have "\<bar>p - lb * 1000000\<bar> \<le> \<bar>lb * 1000000\<bar> / 2 ^ 53" unfolding p_def by (rule fl_error)
  also have "\<dots> \<le> e3" using lbb by (simp add: abs_if e3_def)
  finally have "- e3 \<le> p - lb * 1000000 \<and> p - lb * 1000000 \<le> e3" by (rule abs_leD)
  then have ep: "- e3 \<le> p - lb * 1000000" "p - lb * 1000000 \<le> e3" by simp_all
  define e4 :: rat where "e4 = 1 / 2 ^ 27"
  have "p - (1/2 + t / 5) * 1000000 =
      (p - lb * 1000000) + 1000000 * (lb - (1/2 + y)) + 1000000 * (y - tc)
        + 1000000 * (tc - t / 5)"
    by (simp add: algebra_simps)
  moreover have "- (1000000 * e2) \<le> 1000000 * (lb - (1/2 + y))"
    "1000000 * (lb - (1/2 + y)) \<le> 1000000 * e2"
    "- (1000000 * e1) \<le> 1000000 * (y - tc)" "1000000 * (y - tc) \<le> 1000000 * e1"
    "- (1000000 * e0) \<le> 1000000 * (tc - t / 5)" "1000000 * (tc - t / 5) \<le> 1000000 * e0"
    using ey el tc5 by simp_all
  moreover have "e3 + 1000000 * e2 + 1000000 * e1 + 1000000 * e0 < e4"
    using num(1) by (simp add: e4_def algebra_simps)
  ultimately have "- e4 < p - (1/2 + t / 5) * 1000000 \<and> p - (1/2 + t / 5) * 1000000 < e4"
    using ep by linarith
  then have A: "\<bar>p - (1/2 + t / 5) * 1000000\<bar> < 1 / 2 ^ 27"
    unfolding e4_def abs_less_iff by linarith
  have B: "500000 + (of_int k - 2 ^ 31) * 3125 / 2 ^ 26 = (1/2 + t / 5) * 1000000"
    by (simp add: t_def field_simps)
  have C: "fmul (leftBias_of (of_int k / 2 ^ 32)) 1000000 = p"
    unfolding leftBias_of_def fmul_def fadd_def fsub_half_exact[OF assms] fl_2_10
      p_def lb_def y_def t_def C_def ..
  show ?thesis unfolding C B by (rule A)
qed

lemma micro_leftBias_of:
  assumes "0 \<le> k" "k < 2 ^ 32" "((k - 2 ^ 31) * 3125 + 2 ^ 25) mod 2 ^ 26 \<noteq> 0"
  shows "micro (leftBias_of (of_int k / 2 ^ 32)) = peg_micro k"
proof -
  define M where "M = (k - 2 ^ 31) * 3125 + 2 ^ 25"
  define q where "q = M div 2 ^ 26"
  define r where "r = M mod 2 ^ 26"
  define p where "p = fmul (leftBias_of (of_int k / 2 ^ 32)) 1000000"
  have M: "M = q * 2 ^ 26 + r" by (simp add: q_def r_def)
  have r: "1 \<le> r" "r \<le> 2 ^ 26 - 1"
    using assms(3) pos_mod_bound[of "2 ^ 26" M] pos_mod_sign[of "2 ^ 26" M]
    by (simp_all add: r_def M_def)
  have rr: "(1::rat) \<le> of_int r" "(of_int r :: rat) \<le> 2 ^ 26 - 1"
    using r by (simp_all only: of_int_le_iff[where 'a = rat, symmetric]) simp_all
  have "(of_int M :: rat) = of_int q * 2 ^ 26 + of_int r" by (simp add: M)
  moreover have "(of_int M :: rat) = (of_int k - 2 ^ 31) * 3125 + 2 ^ 25" by (simp add: M_def)
  ultimately have E: "500000 + (of_int k - 2 ^ 31) * 3125 / 2 ^ 26 + 1/2 =
      500000 + of_int q + (of_int r :: rat) / 2 ^ 26"
    by (simp add: field_simps)
  have "\<bar>p - (500000 + (of_int k - 2 ^ 31) * 3125 / 2 ^ 26)\<bar> < 1 / 2 ^ 27"
    unfolding p_def by (rule product_error[OF assms(1,2)])
  then have pe: "- (1 / 2 ^ 27) < p - (500000 + (of_int k - 2 ^ 31) * 3125 / 2 ^ 26)
    \<and> p - (500000 + (of_int k - 2 ^ 31) * 3125 / 2 ^ 26) < 1 / 2 ^ 27"
    unfolding abs_less_iff by linarith
  have r1: "1 / 2 ^ 27 < (of_int r :: rat) / 2 ^ 26" "(of_int r :: rat) / 2 ^ 26 + 1 / 2 ^ 27 < 1"
    using rr by simp_all
  define X :: rat where "X = (of_int k - 2 ^ 31) * 3125 / 2 ^ 26"
  define R :: rat where "R = of_int r / 2 ^ 26"
  define e4 :: rat where "e4 = 1 / 2 ^ 27"
  have "500000 + X + 1/2 = 500000 + of_int q + R" "- e4 < p - (500000 + X)"
    "p - (500000 + X) < e4" "e4 < R" "R + e4 < 1"
    using E pe r1 by (simp_all only: X_def R_def e4_def)
  then have "500000 + of_int q \<le> p + 1/2" "p + 1/2 < 500000 + of_int q + 1"
    by linarith+
  then have "of_int (500000 + q) \<le> p + 1/2" "p + 1/2 < of_int (500000 + q) + 1"
    by simp_all
  then have "\<lfloor>p + 1/2\<rfloor> = 500000 + q" by (rule floor_unique)
  then show ?thesis by (simp add: micro_def peg_micro_def p_def q_def M_def)
qed

lemma fl_1_100: "fl (1/100) = 5764607523034235 / 576460752303423488"
  by (simp add: fl_eval)

lemma fl_of_int: "\<bar>m\<bar> < 2 ^ 53 \<Longrightarrow> fl (of_int m) = of_int m"
  using fl_exact[of m 0] by simp

lemma adj_of_error:
  assumes "\<bar>dropColumn - 6\<bar> \<le> 100"
  shows "\<bar>adj_of dropColumn - of_int (dropColumn - 6) / 100\<bar> \<le> 3 / 2 ^ 53"
proof -
  define a :: rat where "a = of_int (dropColumn - 6)"
  define c :: rat where "c = 5764607523034235 / 576460752303423488"
  define ac where "ac = a * c"
  have "\<bar>dropColumn - 6\<bar> < 2 ^ 53" using assms by simp
  then have "fl (of_int (dropColumn - 6)) = a" unfolding a_def by (rule fl_of_int)
  then have adj: "adj_of dropColumn = fl ac"
    by (simp add: adj_of_def floor_half_ROWS fsub_def fmul_def fl_1_100 ac_def c_def)
  have a: "- 100 \<le> a" "a \<le> 100" using assms by (simp_all add: a_def abs_le_iff)
  have "ac = a * (5764607523034235 / 576460752303423488)" by (simp add: ac_def c_def)
  with a have acb: "- 2 \<le> ac" "ac \<le> 2" by simp_all
  have "ac - a / 100 = a * (5764607523034235 / 576460752303423488 - 1 / 100)"
    by (simp add: ac_def c_def algebra_simps)
  also have "\<dots> = a * (3 / (25 * 2 ^ 59))" by simp
  finally have "ac - a / 100 = a * 3 / (25 * 2 ^ 59)" by simp
  with a have d: "- (1 / 2 ^ 53) \<le> ac - a / 100" "ac - a / 100 \<le> 1 / 2 ^ 53" by simp_all
  have "\<bar>fl ac - ac\<bar> \<le> \<bar>ac\<bar> / 2 ^ 53" by (rule fl_error)
  also have "\<dots> \<le> 2 / 2 ^ 53" using acb by (simp add: abs_if)
  finally have "- (2 / 2 ^ 53) \<le> fl ac - ac \<and> fl ac - ac \<le> 2 / 2 ^ 53" by (rule abs_leD)
  then have e: "- (2 / 2 ^ 53) \<le> fl ac - ac" "fl ac - ac \<le> 2 / 2 ^ 53" by simp_all
  have "- (3 / 2 ^ 53) \<le> fl ac - a / 100 \<and> fl ac - a / 100 \<le> 3 / 2 ^ 53"
    using d e by simp
  then show ?thesis unfolding adj a_def abs_le_iff by linarith
qed

lemma biasPrime_error:
  assumes "0 \<le> n" "n \<le> 1000000" "\<bar>dropColumn - 6\<bar> \<le> 100"
  shows "\<bar>fadd (fdiv (of_int n) 1000000) (adj_of dropColumn)
      - (of_int n / 1000000 + of_int (dropColumn - 6) / 100)\<bar> \<le> 8 / 2 ^ 53"
proof -
  define b where "b = fl (of_int n / 1000000)"
  define x :: rat where "x = of_int n / 1000000"
  define adj where "adj = adj_of dropColumn"
  define a :: rat where "a = of_int (dropColumn - 6) / 100"
  define s where "s = fl (b + adj)"
  have x: "0 \<le> x" "x \<le> 1" using assms by (simp_all add: x_def)
  have a: "- 1 \<le> a" "a \<le> 1" using assms by (simp_all add: a_def abs_le_iff)
  have "\<bar>b - x\<bar> \<le> \<bar>x\<bar> / 2 ^ 53" unfolding b_def x_def by (rule fl_error)
  also have "\<dots> \<le> 1 / 2 ^ 53" using x by (simp add: abs_if)
  finally have "- (1 / 2 ^ 53) \<le> b - x \<and> b - x \<le> 1 / 2 ^ 53" by (rule abs_leD)
  then have eb: "- (1 / 2 ^ 53) \<le> b - x" "b - x \<le> 1 / 2 ^ 53" by simp_all
  have "\<bar>adj - a\<bar> \<le> 3 / 2 ^ 53" unfolding adj_def a_def by (rule adj_of_error[OF assms(3)])
  then have "- (3 / 2 ^ 53) \<le> adj - a \<and> adj - a \<le> 3 / 2 ^ 53" by (rule abs_leD)
  then have ea: "- (3 / 2 ^ 53) \<le> adj - a" "adj - a \<le> 3 / 2 ^ 53" by simp_all
  have ba: "- 3 \<le> b + adj" "b + adj \<le> 3" using eb ea x a by simp_all
  have "\<bar>s - (b + adj)\<bar> \<le> \<bar>b + adj\<bar> / 2 ^ 53" unfolding s_def by (rule fl_error)
  also have "\<dots> \<le> 3 / 2 ^ 53" using ba by (simp add: abs_if)
  finally have "- (3 / 2 ^ 53) \<le> s - (b + adj) \<and> s - (b + adj) \<le> 3 / 2 ^ 53" by (rule abs_leD)
  then have es: "- (3 / 2 ^ 53) \<le> s - (b + adj)" "s - (b + adj) \<le> 3 / 2 ^ 53" by simp_all
  have "- (8 / 2 ^ 53) \<le> s - (x + a) \<and> s - (x + a) \<le> 8 / 2 ^ 53"
    using eb ea es by simp
  then have "\<bar>s - (x + a)\<bar> \<le> 8 / 2 ^ 53" unfolding abs_le_iff by linarith
  then show ?thesis by (simp only: s_def b_def adj_def x_def a_def fadd_def fdiv_def)
qed

lemma decision_int:
  assumes k: "0 < k" "k < 2 ^ 32"
    and n: "0 \<le> n" "n \<le> 1000000"
    and dc: "\<bar>dropColumn - 6\<bar> \<le> 100"
    and tie: "\<not> int_tie k n dropColumn"
  shows "of_int k / 2 ^ 32 < biasPrime_of \<lparr>leftBias = fdiv (of_int n) 1000000\<rparr> dropColumn
    \<longleftrightarrow> int_left k n dropColumn"
proof -
  define s where "s = fadd (fdiv (of_int n) 1000000) (adj_of dropColumn)"
  define th :: rat where "th = of_int n / 1000000 + of_int (dropColumn - 6) / 100"
  define rnd :: rat where "rnd = of_int k / 2 ^ 32"
  define D where "D = k * 15625 - (n + 10000 * (dropColumn - 6)) * 2 ^ 26"
  define e :: rat where "e = 8 / 2 ^ 53"
  define m :: rat where "m = 1 / (15625 * 2 ^ 32)"
  have em: "e < m" "0 < e" by (simp_all add: e_def m_def)
  have "\<bar>s - th\<bar> \<le> e" unfolding s_def th_def e_def by (rule biasPrime_error[OF n dc])
  then have "- e \<le> s - th \<and> s - th \<le> e" by (rule abs_leD)
  then have es: "- e \<le> s - th" "s - th \<le> e" by simp_all
  have rnd: "0 < rnd" "rnd < 1" using k by (simp_all add: rnd_def)
  have diff: "rnd - th = of_int D * m"
    by (simp add: rnd_def th_def D_def m_def field_simps)
  have bp: "biasPrime_of \<lparr>leftBias = fdiv (of_int n) 1000000\<rparr> dropColumn =
      (if (if s < 0 then 0 else s) > 1 then 1 else (if s < 0 then 0 else s))"
    by (simp add: biasPrime_of_def s_def Let_def)
  have mpos: "0 < m" by (simp add: m_def)
  have "D \<noteq> 0" using tie unfolding int_tie_def D_def by linarith
  then consider "D \<le> - 1" | "1 \<le> D" by linarith
  then show ?thesis
  proof cases
    case 1
    then have "(of_int D :: rat) \<le> - 1" by (simp flip: of_int_minus)
    then have "of_int D * m \<le> - 1 * m" using mpos by (intro mult_right_mono) simp_all
    with diff have "rnd \<le> th - m" by simp
    with es em have "rnd < s" by linarith
    with rnd have "rnd < (if (if s < 0 then 0 else s) > 1 then 1 else (if s < 0 then 0 else s))"
      by simp
    moreover have "int_left k n dropColumn" using 1 by (simp add: int_left_def D_def)
    ultimately show ?thesis by (simp add: bp rnd_def)
  next
    case 2
    then have "(1::rat) \<le> of_int D" by simp
    then have "1 * m \<le> of_int D * m" using mpos by (intro mult_right_mono) simp_all
    with diff have "th + m \<le> rnd" by simp
    with es em have "s < rnd" by linarith
    with rnd have "\<not> rnd < (if (if s < 0 then 0 else s) > 1 then 1 else (if s < 0 then 0 else s))"
      by simp
    moreover have "\<not> int_left k n dropColumn" using 2 by (simp add: int_left_def D_def)
    ultimately show ?thesis by (simp add: bp rnd_def)
  qed
qed

section \<open>Evaluating the test vector\<close>

lemma xorshift_eval: "xorshift s = word_of_int (spec_advance (uint s))"
  by (simp add: uint_xorshift[symmetric])

lemma stream_states_numeral:
  "stream_states (numeral n) s = xorshift s # stream_states (pred_numeral n) (xorshift s)"
  by (simp add: numeral_eq_Suc)

lemma vector_states: "stream_states 102 0xe1dddf77 = vector_states"
  by (simp add: stream_states_numeral xorshift_eval spec_advance_def vector_states_def)

lemma vector_seedInt: "seedInt_of sha256 vector_seed = Inr 0xe1dddf77"
  by (simp add: seedInt_of_def seed_buffer_def Buffer_from_hex_def vector_seed_def unhex_def
      readUInt32BE0_def)

lemma vector_generator: "new_Xorshift32 0xe1dddf77 = \<lparr>state = 0xe1dddf77\<rparr>"
  by (simp add: new_Xorshift32_def)

lemma vector_pegs_checked:
  "list_all (\<lambda>r. list_all (\<lambda>c. peg_ok (vector_states ! (tri r + c)) (vector_biases ! r ! c))
      [0..<Suc r]) [0..<12]"
  by (simp add: upt_rec tri_def peg_ok_def peg_micro_def vector_states_def vector_biases_def)

lemma length_stream_states: "length (stream_states n s) = n"
  by (induction n arbitrary: s) simp_all

lemma stream_states_nth: "i < n \<Longrightarrow> stream_states n s ! i = (xorshift ^^ Suc i) s"
proof (induction n arbitrary: s i)
  case 0
  then show ?case by simp
next
  case (Suc n)
  then show ?case by (cases i) (simp_all add: funpow_swap1)
qed

lemma nth_draw_states:
  assumes "i < n"
  shows "nth_draw (Suc i) \<lparr>state = s\<rparr> = of_int (uint (stream_states n s ! i)) / 2 ^ 32"
proof -
  have "state (stream_after i \<lparr>state = s\<rparr>) = (xorshift ^^ i) s"
    by (simp add: state_stream_after)
  then show ?thesis
    using assms by (simp add: nth_draw_def nextFloat_eq stream_states_nth del: of_int_uint)
qed

lemma stream_after_states:
  assumes "i < n"
  shows "stream_after (Suc i) \<lparr>state = s\<rparr> = \<lparr>state = stream_states n s ! i\<rparr>"
proof -
  have "state (stream_after (Suc i) \<lparr>state = s\<rparr>) = stream_states n s ! i"
    using assms by (simp only: state_stream_after stream_states_nth) simp
  then show ?thesis by (cases "stream_after (Suc i) \<lparr>state = s\<rparr>") simp
qed

lemma vector_shape: "map length vector_biases = map Suc [0..<12]"
  by (simp add: vector_biases_def upt_rec)

lemma vector_pegs:
  assumes "r < 12" "c \<le> r"
  shows "peg_ok (vector_states ! (tri r + c)) (vector_biases ! r ! c)"
  using vector_pegs_checked assms unfolding list_all_iff by (auto simp del: upt_Suc)

lemma tri_bound: "r < 12 \<Longrightarrow> c \<le> r \<Longrightarrow> tri r + c < 78"
proof -
  assume "r < 12" "c \<le> r"
  then have "tri r + c < tri (Suc r)" by (simp add: tri_Suc)
  also have "tri (Suc r) \<le> tri 12"
    using \<open>r < 12\<close> unfolding tri_def by (intro div_le_mono mult_le_mono) simp_all
  finally show ?thesis by (simp add: tri_def)
qed

lemma peg_of_state:
  assumes "peg_ok s n"
  shows "peg_of (of_int (uint s) / 2 ^ 32) = \<lparr>leftBias = fdiv (of_int n) 1000000\<rparr>"
proof -
  have "0 \<le> uint s" "uint s < 2 ^ 32" using uint_bounded[of s] by simp_all
  then have "micro (leftBias_of (of_int (uint s) / 2 ^ 32)) = n"
    using assms micro_leftBias_of[of "uint s"] by (simp add: peg_ok_def)
  then show ?thesis by (simp only: peg_of_def roundedBias_of_micro)
qed

lemma vector_pegMap_nth:
  assumes "r < 12" "c \<le> r"
  shows "vector_pegMap ! r ! c = \<lparr>leftBias = fdiv (of_int (vector_biases ! r ! c)) 1000000\<rparr>"
proof -
  have len: "length vector_biases = 12" using arg_cong[OF vector_shape, of length] by simp
  have "map length vector_biases ! r = map Suc [0..<12] ! r" by (simp only: vector_shape)
  then have "length (vector_biases ! r) = Suc r" using assms(1) len by simp
  then show ?thesis using assms len by (simp add: vector_pegMap_def)
qed

lemma vector_pegMap: "fst (pegMap_loop 0 [] \<lparr>state = 0xe1dddf77\<rparr>) = vector_pegMap"
proof (rule nth_equalityI)
  have len: "length vector_biases = 12" using arg_cong[OF vector_shape, of length] by simp
  show "length (fst (pegMap_loop 0 [] \<lparr>state = 0xe1dddf77\<rparr>)) = length vector_pegMap"
    by (simp add: pegMap_loop_0 vector_pegMap_def len)
  fix r
  assume "r < length (fst (pegMap_loop 0 [] \<lparr>state = 0xe1dddf77\<rparr>))"
  then have r: "r < 12" by (simp add: pegMap_loop_0)
  have "map length vector_biases ! r = map Suc [0..<12] ! r" by (simp only: vector_shape)
  then have lr: "length (vector_biases ! r) = Suc r" using r len by simp
  show "fst (pegMap_loop 0 [] \<lparr>state = 0xe1dddf77\<rparr>) ! r = vector_pegMap ! r"
  proof (rule nth_equalityI)
    show "length (fst (pegMap_loop 0 [] \<lparr>state = 0xe1dddf77\<rparr>) ! r) = length (vector_pegMap ! r)"
      using r lr len by (simp add: pegMap_loop_0 length_spec_row vector_pegMap_def)
    fix c
    assume "c < length (fst (pegMap_loop 0 [] \<lparr>state = 0xe1dddf77\<rparr>) ! r)"
    then have c: "c \<le> r" using r by (simp add: pegMap_loop_0 length_spec_row)
    have "tri r + c < 102" using tri_bound[OF r c] by simp
    from nth_draw_states[OF this, of "0xe1dddf77"]
    have d: "nth_draw (tri r + c + 1) \<lparr>state = 0xe1dddf77\<rparr> =
        of_int (uint (vector_states ! (tri r + c))) / 2 ^ 32"
      by (simp only: vector_states Suc_eq_plus1)
    have "fst (pegMap_loop 0 [] \<lparr>state = 0xe1dddf77\<rparr>) ! r ! c =
        peg_of (nth_draw (tri r + c + 1) \<lparr>state = 0xe1dddf77\<rparr>)"
      by (rule built_nth[OF r c])
    also have "\<dots> = peg_of (of_int (uint (vector_states ! (tri r + c))) / 2 ^ 32)"
      by (simp only: d)
    also have "\<dots> = \<lparr>leftBias = fdiv (of_int (vector_biases ! r ! c)) 1000000\<rparr>"
      by (rule peg_of_state[OF vector_pegs[OF r c]])
    also have "\<dots> = vector_pegMap ! r ! c"
      by (rule vector_pegMap_nth[OF r c, symmetric])
    finally show "fst (pegMap_loop 0 [] \<lparr>state = 0xe1dddf77\<rparr>) ! r ! c = vector_pegMap ! r ! c" .
  qed
qed

lemma triangular_vector: "triangular vector_pegMap"
  using triangular_built[of "\<lparr>state = 0xe1dddf77\<rparr>"] by (simp only: vector_pegMap)

lemma run_loop_vector_step:
  assumes r: "r < 12"
    and dc: "\<bar>dropColumn - 6\<bar> \<le> 100"
    and nz: "xorshift s \<noteq> 0"
    and n: "0 \<le> vector_biases ! r ! min pos r" "vector_biases ! r ! min pos r \<le> 1000000"
    and tie: "\<not> int_tie (uint (xorshift s)) (vector_biases ! r ! min pos r) dropColumn"
  shows "run_loop vector_pegMap dropColumn r pth pos \<lparr>state = s\<rparr> =
     (if int_left (uint (xorshift s)) (vector_biases ! r ! min pos r) dropColumn
      then run_loop vector_pegMap dropColumn (r + 1) (pth @ [Left]) pos \<lparr>state = xorshift s\<rparr>
      else run_loop vector_pegMap dropColumn (r + 1) (pth @ [Right]) (pos + 1)
             \<lparr>state = xorshift s\<rparr>)"
proof -
  define k where "k = uint (xorshift s)"
  define nn where "nn = vector_biases ! r ! min pos r"
  have "k \<noteq> 0" using nz by (simp add: k_def uint_0_iff)
  moreover have "0 \<le> k" unfolding k_def by (rule uint_nonnegative)
  ultimately have "0 < k" by linarith
  moreover have "k < 2 ^ 32" using uint_bounded[of "xorshift s"] by (simp add: k_def)
  ultimately have k: "0 < k" "k < 2 ^ 32" by simp_all
  have peg: "peg_at vector_pegMap r (min pos r) = Inr \<lparr>leftBias = fdiv (of_int nn) 1000000\<rparr>"
    using triangular_peg_at[OF triangular_vector, of r "min pos r"] r
      vector_pegMap_nth[OF r, of "min pos r"]
    by (simp add: ROWS_def nn_def)
  have nf: "nextFloat \<lparr>state = s\<rparr> = (of_int k / 2 ^ 32, \<lparr>state = xorshift s\<rparr>)"
    by (simp add: nextFloat_eq k_def)
  have dec: "of_int k / 2 ^ 32 < biasPrime_of \<lparr>leftBias = fdiv (of_int nn) 1000000\<rparr> dropColumn
      \<longleftrightarrow> int_left k nn dropColumn"
    using decision_int[OF k _ _ dc, of nn] n tie by (simp add: nn_def k_def)
  then have dec: "of_int k < biasPrime_of \<lparr>leftBias = fdiv (of_int nn) 1000000\<rparr> dropColumn
      * 4294967296 \<longleftrightarrow> int_left k nn dropColumn"
    by (simp add: field_simps)
  show ?thesis
    using r unfolding k_def[symmetric] nn_def[symmetric]
    by (subst run_loop.simps) (simp add: ROWS_def peg nf dec)
qed

lemma run_loop_stop: "\<not> r < 12 \<Longrightarrow> run_loop pm dropColumn r pth pos g = Inr (pth, pos, g)"
  by (subst run_loop.simps) (simp add: ROWS_def)

lemmas walk_eval = run_loop_vector_step run_loop_stop xorshift_eval spec_advance_def
  int_left_def int_tie_def vector_biases_def

lemma vector_run_6:
  "run_loop vector_pegMap 6 0 [] 0 \<lparr>state = 0xd0d6466c\<rparr> =
     Inr ([Left, Left, Left, Right, Left, Right, Left, Right, Left, Right, Right, Right], 6,
          \<lparr>state = 0xf05c71ef\<rparr>)"
  by (simp add: walk_eval)

lemma vector_run_6_again:
  "run_loop vector_pegMap 6 0 [] 0 \<lparr>state = 0xf05c71ef\<rparr> =
     Inr ([Right, Right, Left, Left, Left, Left, Left, Left, Left, Left, Left, Right], 3,
          \<lparr>state = 0xeb4052ae\<rparr>)"
  by (simp add: walk_eval)


lemma vector_prng: "stream_after 78 \<lparr>state = 0xe1dddf77\<rparr> = \<lparr>state = 0xd0d6466c\<rparr>"
  using stream_after_states[of 77 102 "0xe1dddf77"]
  by (simp add: vector_states) (simp add: vector_states_def)

lemma vector_createGameEngine:
  "createGameEngine sha256 stringify vector_seed =
     Inr (vector_engine (sha256 (stringify vector_pegMap)))"
  by (simp add: createGameEngine_eq vector_seedInt vector_generator vector_pegMap vector_prng
      vector_engine_def)

lemma run_vector_engine:
  assumes "run_loop vector_pegMap dropColumn 0 [] 0 \<lparr>state = s\<rparr> = Inr (pth, pos, g)"
  shows "run (vector_engine h\<lparr>prng := \<lparr>state = s\<rparr>\<rparr>) dropColumn =
     Inr (\<lparr>res_pegMapHash = h, path = pth, binIndex = pos, res_pegMap = vector_pegMap\<rparr>,
          vector_engine h\<lparr>prng := g\<rparr>)"
  using assms by (simp add: run_def vector_engine_def)





lemma fl_half_integer:
  assumes "\<bar>m\<bar> < 2 ^ 52"
  shows "fl (of_int m + 1/2) = of_int m + 1/2" "fl (of_int m - 1/2) = of_int m - 1/2"
proof -
  have h: "\<bar>2 * m + 1\<bar> < 2 ^ 53" "\<bar>2 * m - 1\<bar> < 2 ^ 53" using assms by simp_all
  have e: "(of_int (2 * m + 1) :: rat) * 2 powi (- 1) = of_int m + 1/2"
    "(of_int (2 * m - 1) :: rat) * 2 powi (- 1) = of_int m - 1/2"
    by (simp_all add: power_int_minus field_simps)
  show "fl (of_int m + 1/2) = of_int m + 1/2"
    using fl_exact[OF h(1), of "- 1"] by (simp only: e)
  show "fl (of_int m - 1/2) = of_int m - 1/2"
    using fl_exact[OF h(2), of "- 1"] by (simp only: e)
qed

lemma round_product:
  assumes "0 \<le> x" "x \<le> 1000000"
  shows "\<lfloor>fl x + 1/2\<rfloor> =
    \<lfloor>x + 1/2\<rfloor> + (if fl x = of_int \<lfloor>fl x\<rfloor> + 1/2 \<and> x < fl x then 1 else 0)"
proof -
  define m where "m = \<lfloor>x + 1/2\<rfloor>"
  define p where "p = fl x"
  have lo: "of_int m - 1/2 \<le> x" and hi: "x < of_int m + 1/2"
    unfolding m_def by linarith+
  have "0 \<le> m" "m \<le> 1000000" using assms unfolding m_def by linarith+
  then have "\<bar>m\<bar> < 2 ^ 52" by simp
  note ex = fl_half_integer[OF this]
  have plo: "of_int m - 1/2 \<le> p" using fl_mono[OF lo] by (simp only: ex p_def)
  have phi: "p \<le> of_int m + 1/2" using fl_mono[OF less_imp_le[OF hi]] by (simp only: ex p_def)
  consider "p = of_int m + 1/2" | "p < of_int m + 1/2" using phi by linarith
  then have "\<lfloor>p + 1/2\<rfloor> = m + (if p = of_int \<lfloor>p\<rfloor> + 1/2 \<and> x < p then 1 else 0)"
  proof cases
    case 1
    then have "\<lfloor>p\<rfloor> = m" "\<lfloor>p + 1/2\<rfloor> = m + 1" by linarith+
    with 1 hi show ?thesis by simp
  next
    case 2
    with plo have f: "\<lfloor>p + 1/2\<rfloor> = m" by linarith
    have "\<not> (p = of_int \<lfloor>p\<rfloor> + 1/2 \<and> x < p)"
    proof
      assume a: "p = of_int \<lfloor>p\<rfloor> + 1/2 \<and> x < p"
      then have "of_int \<lfloor>p\<rfloor> < (of_int m :: rat)" using 2 by linarith
      then have "\<lfloor>p\<rfloor> \<le> m - 1" by linarith
      then have "(of_int \<lfloor>p\<rfloor> :: rat) \<le> of_int m - 1" by linarith
      with a lo show False by linarith
    qed
    with f show ?thesis by simp
  qed
  then show ?thesis by (simp only: m_def p_def)
qed

lemma peg_of_rounding:
  assumes "0 \<le> d" "d < 1"
  shows "leftBias (peg_of d) =
      fl (spec_round6 (spec_bias d) + (if product_tie (spec_bias d) then 1 / 1000000 else 0))
    \<and> 4/10 \<le> spec_bias d \<and> spec_bias d \<le> 6/10
    \<and> 0 \<le> leftBias (peg_of d) \<and> leftBias (peg_of d) \<le> 1"
proof -
  define b where "b = leftBias_of d"
  define x where "x = b * 1000000"
  from leftBias_of_bounds[OF assms]
  have b: "4/10 \<le> b" "b \<le> 6/10" by (simp_all add: b_def)
  then have b01: "0 \<le> b" "b \<le> 1" by simp_all
  from roundedBias_of_bounds[OF this]
  have r01: "0 \<le> roundedBias_of b" "roundedBias_of b \<le> 1" by simp_all
  have x: "0 \<le> x" "x \<le> 1000000" using b by (simp_all add: x_def)
  have away: "round_half_away x = \<lfloor>x + 1/2\<rfloor>" using x by (simp add: round_half_away_def)
  have tie: "product_tie b \<longleftrightarrow> fl x = of_int \<lfloor>fl x\<rfloor> + 1/2 \<and> x < fl x"
    by (simp only: product_tie_def fmul_def x_def)
  have "roundedBias_of b = fl (of_int \<lfloor>fl x + 1/2\<rfloor> / 1000000)"
    by (simp only: roundedBias_of_def Math_round_def fmul_def fdiv_def x_def)
  also have "\<lfloor>fl x + 1/2\<rfloor> = round_half_away x + (if product_tie b then 1 else 0)"
    by (simp only: round_product[OF x] away tie)
  also have "(of_int (round_half_away x + (if product_tie b then 1 else 0)) :: rat) / 1000000 =
      spec_round6 b + (if product_tie b then 1 / 1000000 else 0)"
    by (simp add: spec_round6_def x_def add_divide_distrib)
  finally have "roundedBias_of b =
      fl (spec_round6 b + (if product_tie b then 1 / 1000000 else 0))" .
  with b r01 show ?thesis by (simp add: peg_of_def spec_bias_eq b_def)
qed

lemma first_peg:
  assumes "seedInt_of sha256 s = Inr seedInt"
  shows "pegMap (projr (createGameEngine sha256 stringify s)) ! 0 ! 0 =
    peg_of (nth_draw 1 (new_Xorshift32 seedInt))"
  using built_nth[of 0 0 "new_Xorshift32 seedInt"]
  by (simp add: createGameEngine_eq assms tri_def)

lemma tie_seed: "seedInt_of sha256 ''46202100'' = Inr 0x46202100"
  by (simp add: seedInt_of_def seed_buffer_def Buffer_from_hex_def unhex_def readUInt32BE0_def)

lemma tie_draw: "nth_draw 1 (new_Xorshift32 0x46202100) = 1/128"
  by (simp add: nth_draw_def nextFloat_eq new_Xorshift32_def xorshift_eval spec_advance_def)

lemma tie_bias: "leftBias_of (1/128) = 7233906901463859 / 18014398509481984"
proof -
  have "fsub (1/128) (1/2) = - (63/128)" by (simp add: fsub_def fl_eval)
  moreover have "fmul (- (63/128)) (3602879701896397 / 18014398509481984) =
      - (1773292353277133 / 18014398509481984)"
    by (simp add: fmul_def fl_eval floor_rat_numeral_div ceiling_rat_numeral_div)
  moreover have "fadd (1/2) (- (1773292353277133 / 18014398509481984)) =
      7233906901463859 / 18014398509481984"
    by (simp add: fadd_def fl_eval floor_rat_numeral_div ceiling_rat_numeral_div)
  ultimately show ?thesis by (simp only: leftBias_of_def fl_2_10)
qed

lemma tie_product: "fmul (7233906901463859 / 18014398509481984) 1000000 = 803125 / 2"
  by (simp add: fmul_def fl_eval floor_rat_numeral_div ceiling_rat_numeral_div)

lemma tie_stored: "leftBias (peg_of (1/128)) = fl (401563 / 1000000)"
proof -
  have "Math_round (803125 / 2) = 401563" by (simp add: Math_round_def)
  then show ?thesis
    by (simp only: peg_of_def roundedBias_of_def tie_bias tie_product fdiv_def Peg.simps)
qed

lemma tie_spec: "spec_round6 (spec_bias (1/128)) = 401562 / 1000000"
  by (simp add: spec_bias_eq tie_bias spec_round6_def round_half_away_def floor_rat_numeral_div)

lemma exact_tie_seed: "seedInt_of sha256 ''42602300'' = Inr 0x42602300"
  by (simp add: seedInt_of_def seed_buffer_def Buffer_from_hex_def unhex_def readUInt32BE0_def)

lemma exact_tie_draw: "nth_draw 1 (new_Xorshift32 0x42602300) = 67/128"
  by (simp add: nth_draw_def nextFloat_eq new_Xorshift32_def xorshift_eval spec_advance_def)

lemma exact_tie_bias: "leftBias_of (67/128) = 2272910436938547 / 4503599627370496"
proof -
  have "fsub (67/128) (1/2) = 3/128" by (simp add: fsub_def fl_eval)
  moreover have "fmul (3/128) (3602879701896397 / 18014398509481984) =
      1351079888211149 / 288230376151711744"
    by (simp add: fmul_def fl_eval floor_rat_numeral_div ceiling_rat_numeral_div)
  moreover have "fadd (1/2) (1351079888211149 / 288230376151711744) =
      2272910436938547 / 4503599627370496"
    by (simp add: fadd_def fl_eval floor_rat_numeral_div ceiling_rat_numeral_div)
  ultimately show ?thesis by (simp only: leftBias_of_def fl_2_10)
qed

lemma exact_tie_product:
  "fmul (2272910436938547 / 4503599627370496) 1000000 = 8670465228799999 / 17179869184"
  by (simp add: fmul_def fl_eval floor_rat_numeral_div ceiling_rat_numeral_div)

lemma exact_tie_stored: "leftBias (peg_of (67/128)) = fl (504687 / 1000000)"
proof -
  have "Math_round (8670465228799999 / 17179869184) = 504687"
    by (simp add: Math_round_def floor_rat_numeral_div)
  then show ?thesis
    by (simp only: peg_of_def roundedBias_of_def exact_tie_bias exact_tie_product fdiv_def
        Peg.simps)
qed

lemma exact_tie_spec: "spec_round6 (exact_bias (67/128)) = 504688 / 1000000"
  by (simp add: exact_bias_def spec_round6_def round_half_away_def floor_rat_numeral_div)

lemma stored_distinct:
  "fl (401563 / 1000000) \<noteq> fl (401562 / 1000000)"
  "fl (504687 / 1000000) \<noteq> fl (504688 / 1000000)"
  by (simp_all add: fl_eval floor_rat_numeral_div ceiling_rat_numeral_div)

section \<open>The generator: claims C3 and C9\<close>

text \<open>
  C3. The generator holds one 32-bit unsigned state. Constructed from a seed it starts in
  the state \<open>seed mod 2\<^sup>3\<^sup>2\<close>, and a seed that reduces to 0 (the seed 0) starts in the
  state 1. Each draw replaces the state \<open>x\<close> by the result of \<open>x ^= x << 13\<close>,
  \<open>x ^= x >>> 17\<close>, \<open>x ^= x << 5\<close> taken on unsigned 32-bit integers with wrap-around
  (\<open>spec_advance\<close>), and returns the new state divided by \<open>2\<^sup>3\<^sup>2\<close> exactly, a number in
  \<open>[0, 1)\<close>.
\<close>

theorem Xorshift32_draw:
  "uint (state (new_Xorshift32 seed)) = (if seed mod 2 ^ 32 = 0 then 1 else seed mod 2 ^ 32)
   \<and> uint (state (snd (nextFloat g))) = spec_advance (uint (state g))
   \<and> fst (nextFloat g) = of_int (uint (state (snd (nextFloat g)))) / 2 ^ 32
   \<and> 0 \<le> fst (nextFloat g) \<and> fst (nextFloat g) < 1"
proof -
  have "uint (state (snd (nextFloat g))) = spec_advance (uint (state g))"
    by (simp add: nextFloat_eq uint_xorshift)
  moreover have "fst (nextFloat g) = of_int (uint (state (snd (nextFloat g)))) / 2 ^ 32"
    by (simp add: nextFloat_eq)
  ultimately show ?thesis
    using new_Xorshift32_state[of seed] nextFloat_range[of g] by simp
qed

text \<open>
  C9. The state of the generator is never zero: the constructor never yields the state
  0, the advance function is a bijection on 32-bit states that maps exactly the state 0
  to 0 and has 0 as its only fixed point, so the state after any number of draws is not
  zero, and every draw lies strictly between 0 and 1.
\<close>

theorem Xorshift32_never_zero:
  "state (new_Xorshift32 seed) \<noteq> 0
   \<and> (\<forall>s. xorshift s = 0 \<longleftrightarrow> s = 0)
   \<and> bij xorshift
   \<and> (\<forall>s. xorshift s = s \<longleftrightarrow> s = 0)
   \<and> (\<forall>n. state (stream_after n (new_Xorshift32 seed)) \<noteq> 0)
   \<and> (\<forall>k. 0 < nth_draw k (new_Xorshift32 seed) \<and> nth_draw k (new_Xorshift32 seed) < 1)"
proof -
  have nz: "state (stream_after n (new_Xorshift32 seed)) \<noteq> 0" for n
    by (simp add: state_stream_after funpow_xorshift_nonzero new_Xorshift32_nonzero)
  have "0 < nth_draw k (new_Xorshift32 seed) \<and> nth_draw k (new_Xorshift32 seed) < 1" for k
    unfolding nth_draw_def using nextFloat_pos[OF nz] nextFloat_range by blast
  then show ?thesis
    using nz new_Xorshift32_nonzero xorshift_eq_0_iff bij_xorshift xorshift_fixpoint_iff
    by blast
qed

section \<open>The walk: claims C1, C2, C5, C7 and C10\<close>

text \<open>
  C1. On every built peg field, for every drop column (those of \<open>[0, 12]\<close> among them)
  and every generator state, \<open>engine.run\<close> returns what the walk of the specification
  returns: rows \<open>0, \<dots>, 11\<close> in increasing order, each step (\<open>spec_row_step\<close>) taking
  the peg at index \<open>min pos r\<close>, the adjustment \<open>(dropColumn - \<lfloor>12 / 2\<rfloor>) * 0.01\<close>,
  the bias clamped to \<open>[0, 1]\<close> and one draw, appending \<open>Left\<close> with \<open>pos\<close> unchanged when
  the draw is below the bias and \<open>Right\<close> with \<open>pos + 1\<close> otherwise. Nothing else changes:
  the engine returned differs from the one given only in its generator, which has made
  exactly 12 draws.
\<close>

theorem run_walk:
  "run \<lparr>pegMap = fst (pegMap_loop 0 [] g0), pegMapHash = h, prng = g\<rparr> dropColumn =
     (let pm = fst (pegMap_loop 0 [] g0);
          w = foldl (spec_row_step pm dropColumn) ([], 0, g) [0..<12]
      in Inr (\<lparr>res_pegMapHash = h, path = fst w, binIndex = fst (snd w), res_pegMap = pm\<rparr>,
              \<lparr>pegMap = pm, pegMapHash = h, prng = snd (snd w)\<rparr>))
   \<and> snd (snd (foldl (spec_row_step (fst (pegMap_loop 0 [] g0)) dropColumn) ([], 0, g) [0..<12])) =
       stream_after 12 g"
  using run_eq[of "\<lparr>pegMap = fst (pegMap_loop 0 [] g0), pegMapHash = h, prng = g\<rparr>" dropColumn]
    spec_walk_inv[of "fst (pegMap_loop 0 [] g0)" dropColumn g 12]
  by (simp add: spec_walk_def Let_def triangular_built)

text \<open>
  C2. For every combined seed that yields an engine and every drop column, \<open>run\<close>
  returns a path of exactly 12 moves, each \<open>Left\<close> or \<open>Right\<close>, and a \<open>binIndex\<close> that
  is the number of \<open>Right\<close> moves of the path and at most 12. The running count starts
  at 0, never decreases and grows by at most 1 per row, and it is the \<open>pos\<close> of the loop:
  resuming the loop at row \<open>r\<close> with the first \<open>r\<close> moves, their number of \<open>Right\<close> moves
  and the generator after \<open>r\<close> draws gives the result of the whole run.
\<close>

theorem run_outcome_invariants:
  assumes "createGameEngine sha256 stringify s = Inr eng"
  shows "\<exists>res eng'. run eng dropColumn = Inr (res, eng')
    \<and> length (path res) = 12
    \<and> set (path res) \<subseteq> {Left, Right}
    \<and> binIndex res = rights (path res)
    \<and> binIndex res \<le> 12
    \<and> rights (take 0 (path res)) = 0
    \<and> (\<forall>r<12. rights (take r (path res)) \<le> rights (take (Suc r) (path res))
          \<and> rights (take (Suc r) (path res)) \<le> rights (take r (path res)) + 1)
    \<and> (\<forall>r\<le>12. run_loop (pegMap eng) dropColumn r (take r (path res))
            (rights (take r (path res))) (stream_after r (prng eng)) =
          run_loop (pegMap eng) dropColumn 0 [] 0 (prng eng))"
proof -
  from createGameEngine_InrD[OF assms] have tr: "triangular (pegMap eng)"
    by (auto simp: triangular_built)
  define p where "p = fst (spec_walk (pegMap eng) dropColumn (prng eng) 12)"
  have len: "length p = 12"
    using spec_walk_inv[of "pegMap eng" dropColumn "prng eng" 12] by (simp add: p_def)
  have "rights p \<le> 12" using rights_le_length[of p] len by simp
  moreover have "set p \<subseteq> {Left, Right}"
    by (auto intro: move.exhaust)
  moreover have "rights (take r p) \<le> rights (take (Suc r) p)
      \<and> rights (take (Suc r) p) \<le> rights (take r p) + 1" if "r < 12" for r
    using spec_walk_rights_step[OF that, of "pegMap eng" dropColumn "prng eng"]
    by (simp add: p_def)
  moreover have "run_loop (pegMap eng) dropColumn r (take r p) (rights (take r p))
      (stream_after r (prng eng)) = run_loop (pegMap eng) dropColumn 0 [] 0 (prng eng)"
    if "r \<le> 12" for r
    using run_loop_resume[OF tr that] by (simp add: p_def)
  ultimately show ?thesis
    using run_eq[OF tr, of dropColumn] len by (simp add: p_def rights_Nil)
qed

theorem run_outcome_invariants_witness:
  "createGameEngine (\<lambda>x. x) (\<lambda>pm. []) vector_seed = Inr (vector_engine [])
   \<and> (\<exists>res eng'. run (vector_engine []) 6 = Inr (res, eng')
         \<and> length (path res) = 12 \<and> binIndex res = rights (path res) \<and> binIndex res \<le> 12
         \<and> rights (take 3 (path res)) \<le> rights (take 4 (path res))
         \<and> rights (take 4 (path res)) \<le> rights (take 3 (path res)) + 1)"
proof -
  have e: "createGameEngine (\<lambda>x. x) (\<lambda>pm. []) vector_seed = Inr (vector_engine [])"
    by (simp add: vector_createGameEngine)
  from run_outcome_invariants[OF e, of 6] obtain res eng' where
    r: "run (vector_engine []) 6 = Inr (res, eng')" "length (path res) = 12"
      "binIndex res = rights (path res)" "binIndex res \<le> 12"
    and m: "\<forall>r<12. rights (take r (path res)) \<le> rights (take (Suc r) (path res))
          \<and> rights (take (Suc r) (path res)) \<le> rights (take r (path res)) + 1"
    by blast
  from m[rule_format, of 3] have "rights (take 3 (path res)) \<le> rights (take 4 (path res))
      \<and> rights (take 4 (path res)) \<le> rights (take 3 (path res)) + 1"
    by simp
  with e r show ?thesis by blast
qed

text \<open>
  C5. Field construction and walk consume one stream in a fixed order. With \<open>g0\<close> the
  generator seeded from the combined seed, the peg at row \<open>r\<close> and column \<open>c\<close> is built
  from draw number \<open>r (r + 1) / 2 + c + 1\<close> of \<open>g0\<close>; in row-major order these are the
  draws \<open>1, \<dots>, 78\<close>. The engine's generator is \<open>g0\<close> after these 78 draws, it is not
  reset, and the decision of walk row \<open>r\<close> is taken on draw number \<open>79 + r\<close> of \<open>g0\<close>;
  after the run the generator has made 90 draws.
\<close>

theorem one_stream:
  assumes "createGameEngine sha256 stringify s = Inr eng"
  shows "\<exists>seedInt res eng'.
      seedInt_of sha256 s = Inr seedInt
    \<and> concat (map (\<lambda>r. map (\<lambda>c. tri r + c + 1) [0..<Suc r]) [0..<12]) = [1..<79]
    \<and> (\<forall>r<12. \<forall>c\<le>r.
          pegMap eng ! r ! c = peg_of (nth_draw (tri r + c + 1) (new_Xorshift32 seedInt)))
    \<and> prng eng = stream_after 78 (new_Xorshift32 seedInt)
    \<and> run eng dropColumn = Inr (res, eng')
    \<and> (\<forall>r<12. path res ! r =
          spec_decision (pegMap eng) dropColumn r (rights (take r (path res)))
            (nth_draw (79 + r) (new_Xorshift32 seedInt)))
    \<and> prng eng' = stream_after 90 (new_Xorshift32 seedInt)"
proof -
  from createGameEngine_InrD[OF assms] obtain seedInt where
    seed: "seedInt_of sha256 s = Inr seedInt" and
    pm: "pegMap eng = fst (pegMap_loop 0 [] (new_Xorshift32 seedInt))" and
    g: "prng eng = stream_after 78 (new_Xorshift32 seedInt)"
    by blast
  have tr: "triangular (pegMap eng)" by (simp add: pm triangular_built)
  define p where "p = fst (spec_walk (pegMap eng) dropColumn (prng eng) 12)"
  have pegs: "pegMap eng ! r ! c = peg_of (nth_draw (tri r + c + 1) (new_Xorshift32 seedInt))"
    if "r < 12" "c \<le> r" for r c
    using built_nth[OF that] by (simp add: pm)
  have dec: "p ! r = spec_decision (pegMap eng) dropColumn r (rights (take r p))
      (nth_draw (79 + r) (new_Xorshift32 seedInt))" if "r < 12" for r
    using spec_walk_nth[OF that, of "pegMap eng" dropColumn "prng eng"]
      nth_draw_after[of r 78 "new_Xorshift32 seedInt"]
    by (simp add: p_def g)
  have "stream_after 12 (prng eng) = stream_after 90 (new_Xorshift32 seedInt)"
    using stream_after_add[of 78 12 "new_Xorshift32 seedInt"] by (simp add: g)
  with run_eq[OF tr, of dropColumn] seed pegs dec g row_major_order show ?thesis
    by (simp add: p_def)
qed

theorem one_stream_witness:
  "createGameEngine (\<lambda>x. x) (\<lambda>pm. []) vector_seed = Inr (vector_engine [])
   \<and> (\<exists>seedInt res eng'.
         seedInt_of (\<lambda>x. x) vector_seed = Inr seedInt
       \<and> pegMap (vector_engine []) ! 2 ! 1 = peg_of (nth_draw (tri 2 + 1 + 1) (new_Xorshift32 seedInt))
       \<and> prng (vector_engine []) = stream_after 78 (new_Xorshift32 seedInt)
       \<and> run (vector_engine []) 6 = Inr (res, eng')
       \<and> path res ! 0 =
           spec_decision (pegMap (vector_engine [])) 6 0 (rights (take 0 (path res)))
             (nth_draw (79 + 0) (new_Xorshift32 seedInt))
       \<and> prng eng' = stream_after 90 (new_Xorshift32 seedInt))"
proof -
  have e: "createGameEngine (\<lambda>x. x) (\<lambda>pm. []) vector_seed = Inr (vector_engine [])"
    by (simp add: vector_createGameEngine)
  from one_stream[OF e, of 6] obtain seedInt res eng' where
    a: "seedInt_of (\<lambda>x. x) vector_seed = Inr seedInt"
      "prng (vector_engine []) = stream_after 78 (new_Xorshift32 seedInt)"
      "run (vector_engine []) 6 = Inr (res, eng')"
      "prng eng' = stream_after 90 (new_Xorshift32 seedInt)"
    and p: "\<forall>r<12. \<forall>c\<le>r. pegMap (vector_engine []) ! r ! c =
          peg_of (nth_draw (tri r + c + 1) (new_Xorshift32 seedInt))"
    and d: "\<forall>r<12. path res ! r =
          spec_decision (pegMap (vector_engine [])) 6 r (rights (take r (path res)))
            (nth_draw (79 + r) (new_Xorshift32 seedInt))"
    by blast
  from p[rule_format, of 2 1] have "pegMap (vector_engine []) ! 2 ! 1 =
      peg_of (nth_draw (tri 2 + 1 + 1) (new_Xorshift32 seedInt))"
    by simp
  moreover from d[rule_format, of 0] have "path res ! 0 =
      spec_decision (pegMap (vector_engine [])) 6 0 (rights (take 0 (path res)))
        (nth_draw (79 + 0) (new_Xorshift32 seedInt))"
    by simp
  ultimately show ?thesis using e a by blast
qed




text \<open>
  C10. \<open>run\<close> advances the generator of the engine it is given. On the engine of the
  test vector two consecutive calls with the drop column 6 return different paths and
  different bins (6, then 3): the second call starts from the generator state the first
  one left.
\<close>

theorem run_twice_differs:
  "createGameEngine sha256 stringify vector_seed =
     Inr (vector_engine (sha256 (stringify vector_pegMap)))
   \<and> run (vector_engine h) 6 =
       Inr (\<lparr>res_pegMapHash = h, path = [Left, Left, Left, Right, Left, Right, Left, Right, Left, Right, Right, Right],
              binIndex = 6, res_pegMap = vector_pegMap\<rparr>,
            vector_engine h\<lparr>prng := \<lparr>state = 0xf05c71ef\<rparr>\<rparr>)
   \<and> run (vector_engine h\<lparr>prng := \<lparr>state = 0xf05c71ef\<rparr>\<rparr>) 6 =
       Inr (\<lparr>res_pegMapHash = h, path = [Right, Right, Left, Left, Left, Left, Left, Left, Left, Left, Left, Right],
              binIndex = 3, res_pegMap = vector_pegMap\<rparr>,
            vector_engine h\<lparr>prng := \<lparr>state = 0xeb4052ae\<rparr>\<rparr>)
   \<and> [Left, Left, Left, Right, Left, Right, Left, Right, Left, Right, Right, Right] \<noteq> [Right, Right, Left, Left, Left, Left, Left, Left, Left, Left, Left, Right]
   \<and> (0::int) \<le> 6 \<and> (6::int) \<le> 12"
  using run_vector_engine[OF vector_run_6, of h] run_vector_engine[OF vector_run_6_again, of h]
  by (simp add: vector_createGameEngine) (simp add: vector_engine_def)

section \<open>The peg field and the test vector: claims C4, C6 and C8\<close>

text \<open>
  C4, as the code has it. For every combined seed that yields an engine, the peg field
  has exactly 12 rows and row \<open>r\<close> has exactly \<open>r + 1\<close> pegs. The bias of each peg
  comes from one draw \<open>d\<close> (draw number \<open>r (r + 1) / 2 + c + 1\<close>) as
  \<open>0.5 + (d - 0.5) * 0.2\<close> in the arithmetic of the source (\<open>spec_bias\<close>); that number lies in \<open>[0.4, 0.6]\<close>. The stored
  bias is the number of the program nearest to a number of 6 decimal digits: the bias
  rounded to 6 decimal digits half away from zero (\<open>spec_round6\<close>, in exact arithmetic),
  except when the product of the bias and \<open>1000000\<close>, rounded as the source computes
  it, is exactly a half-integer that the exact product lies below (\<open>product_tie\<close>);
  then it is one millionth more. The stored bias lies in \<open>[0, 1]\<close>.
\<close>

theorem peg_field:
  assumes "createGameEngine sha256 stringify s = Inr eng"
  shows "length (pegMap eng) = 12
    \<and> (\<forall>r<12. length (pegMap eng ! r) = r + 1)
    \<and> (\<exists>seedInt. seedInt_of sha256 s = Inr seedInt
          \<and> (\<forall>r<12. \<forall>c\<le>r.
                let d = nth_draw (tri r + c + 1) (new_Xorshift32 seedInt);
                    b = leftBias (pegMap eng ! r ! c)
                in b = fl (spec_round6 (spec_bias d)
                           + (if product_tie (spec_bias d) then 1 / 1000000 else 0))
                   \<and> 4/10 \<le> spec_bias d \<and> spec_bias d \<le> 6/10
                   \<and> 0 \<le> b \<and> b \<le> 1))"
proof -
  from createGameEngine_InrD[OF assms] obtain seedInt where
    seed: "seedInt_of sha256 s = Inr seedInt" and
    pm: "pegMap eng = fst (pegMap_loop 0 [] (new_Xorshift32 seedInt))"
    by blast
  have "length (pegMap eng) = 12" by (simp add: pm pegMap_loop_0)
  moreover have "length (pegMap eng ! r) = r + 1" if "r < 12" for r
    using that by (simp add: pm pegMap_loop_0 length_spec_row)
  moreover have "let d = nth_draw (tri r + c + 1) (new_Xorshift32 seedInt);
        b = leftBias (pegMap eng ! r ! c)
      in b = fl (spec_round6 (spec_bias d)
                 + (if product_tie (spec_bias d) then 1 / 1000000 else 0))
         \<and> 4/10 \<le> spec_bias d \<and> spec_bias d \<le> 6/10 \<and> 0 \<le> b \<and> b \<le> 1"
    if "r < 12" "c \<le> r" for r c
    using peg_of_rounding[of "nth_draw (tri r + c + 1) (new_Xorshift32 seedInt)"]
      nth_draw_range[of "tri r + c + 1" "new_Xorshift32 seedInt"] built_nth[OF that]
    by (simp add: pm Let_def)
  ultimately show ?thesis using seed by blast
qed

theorem peg_field_witness:
  "createGameEngine (\<lambda>x. x) (\<lambda>pm. []) vector_seed = Inr (vector_engine [])
   \<and> length (pegMap (vector_engine [])) = 12
   \<and> length (pegMap (vector_engine []) ! 2) = 2 + 1
   \<and> (\<exists>seedInt. seedInt_of (\<lambda>x. x) vector_seed = Inr seedInt
         \<and> (let d = nth_draw (tri 2 + 1 + 1) (new_Xorshift32 seedInt);
                  b = leftBias (pegMap (vector_engine []) ! 2 ! 1)
              in b = fl (spec_round6 (spec_bias d)
                         + (if product_tie (spec_bias d) then 1 / 1000000 else 0))
                 \<and> 4/10 \<le> spec_bias d \<and> spec_bias d \<le> 6/10 \<and> 0 \<le> b \<and> b \<le> 1))"
proof -
  have e: "createGameEngine (\<lambda>x. x) (\<lambda>pm. []) vector_seed = Inr (vector_engine [])"
    by (simp add: vector_createGameEngine)
  from peg_field[OF e] obtain seedInt where
    l: "length (pegMap (vector_engine [])) = 12"
      "\<forall>r<12. length (pegMap (vector_engine []) ! r) = r + 1"
    and s: "seedInt_of (\<lambda>x. x) vector_seed = Inr seedInt"
    and p: "\<forall>r<12. \<forall>c\<le>r.
        let d = nth_draw (tri r + c + 1) (new_Xorshift32 seedInt);
            b = leftBias (pegMap (vector_engine []) ! r ! c)
        in b = fl (spec_round6 (spec_bias d)
                   + (if product_tie (spec_bias d) then 1 / 1000000 else 0))
           \<and> 4/10 \<le> spec_bias d \<and> spec_bias d \<le> 6/10 \<and> 0 \<le> b \<and> b \<le> 1"
    by blast
  from l(2)[rule_format, of 2] have "length (pegMap (vector_engine []) ! 2) = 2 + 1" by simp
  moreover from p[rule_format, of 2 1]
  have "let d = nth_draw (tri 2 + 1 + 1) (new_Xorshift32 seedInt);
            b = leftBias (pegMap (vector_engine []) ! 2 ! 1)
        in b = fl (spec_round6 (spec_bias d)
                   + (if product_tie (spec_bias d) then 1 / 1000000 else 0))
           \<and> 4/10 \<le> spec_bias d \<and> spec_bias d \<le> 6/10 \<and> 0 \<le> b \<and> b \<le> 1"
    by simp
  ultimately show ?thesis using e l(1) s by blast
qed

text \<open>
  The claim C4 itself fails. For the combined seed \<open>46202100\<close> the
  first draw is \<open>1/128\<close>. The bias that the source computes is below \<open>0.4015625\<close>, so
  rounded to 6 decimal digits half away from zero it is \<open>0.401562\<close>; its product with
  \<open>1000000\<close> is rounded to \<open>401562.5\<close>, and the peg stores \<open>0.401563\<close>. Read with the
  bias in exact arithmetic, the claim fails too: for the combined seed \<open>42602300\<close> the
  first draw is \<open>67/128\<close> and the exact bias \<open>0.5046875\<close> rounds half away from zero to
  \<open>0.504688\<close>, and the peg stores \<open>0.504687\<close>. (Both seeds decode to 4 bytes, so
  the digest function does not enter; the identity stands in for it.)
\<close>

theorem peg_rounding_tie:
  "seedInt_of (\<lambda>x. x) ''46202100'' = Inr 0x46202100
   \<and> nth_draw 1 (new_Xorshift32 0x46202100) = 1/128
   \<and> leftBias (pegMap (projr (createGameEngine (\<lambda>x. x) (\<lambda>pm. []) ''46202100'')) ! 0 ! 0) =
       fl (401563 / 1000000)
   \<and> spec_round6 (spec_bias (1/128)) = 401562 / 1000000
   \<and> fl (401563 / 1000000) \<noteq> fl (401562 / 1000000)
   \<and> seedInt_of (\<lambda>x. x) ''42602300'' = Inr 0x42602300
   \<and> nth_draw 1 (new_Xorshift32 0x42602300) = 67/128
   \<and> leftBias (pegMap (projr (createGameEngine (\<lambda>x. x) (\<lambda>pm. []) ''42602300'')) ! 0 ! 0) =
       fl (504687 / 1000000)
   \<and> spec_round6 (exact_bias (67/128)) = 504688 / 1000000
   \<and> fl (504687 / 1000000) \<noteq> fl (504688 / 1000000)"
proof -
  have "leftBias (pegMap (projr (createGameEngine (\<lambda>x. x) (\<lambda>pm. []) ''46202100'')) ! 0 ! 0) =
      fl (401563 / 1000000)"
    by (simp only: first_peg[OF tie_seed] tie_draw tie_stored)
  moreover
  have "leftBias (pegMap (projr (createGameEngine (\<lambda>x. x) (\<lambda>pm. []) ''42602300'')) ! 0 ! 0) =
      fl (504687 / 1000000)"
    by (simp only: first_peg[OF exact_tie_seed] exact_tie_draw exact_tie_stored)
  ultimately show ?thesis
    by (simp only: tie_seed tie_draw tie_spec exact_tie_seed exact_tie_draw exact_tie_spec
        stored_distinct simp_thms)
qed

text \<open>
  C6. The test vector. The first 4 bytes of the combined seed, read big-endian, are
  \<open>0xe1dddf77\<close>. The first 5 draws of the generator seeded with it, rounded to 10
  decimal digits, are \<open>0.1106166649\<close>, \<open>0.7625129214\<close>, \<open>0.0439292176\<close>,
  \<open>0.4578678815\<close> and \<open>0.3438999297\<close>. The engine built from the combined seed has the
  peg map \<open>vector_pegMap\<close>, whose rows 0, 1 and 2 hold the numbers that the literals
  \<open>0.422123\<close>; \<open>0.552503\<close>, \<open>0.408786\<close>; \<open>0.491574\<close>, \<open>0.468780\<close>, \<open>0.436540\<close>
  denote (the quotient by \<open>1000000\<close>, rounded once), and its run with the drop column
  6 ends in the bin 6.
\<close>

theorem test_vector:
  "seedInt_of sha256 vector_seed = Inr 0xe1dddf77
   \<and> map (\<lambda>k. round_half_away (nth_draw k (new_Xorshift32 0xe1dddf77) * 10 ^ 10))
         [1, 2, 3, 4, 5] =
       [1106166649, 7625129214, 439292176, 4578678815, 3438999297]
   \<and> createGameEngine sha256 stringify vector_seed =
       Inr (vector_engine (sha256 (stringify vector_pegMap)))
   \<and> map (map leftBias) (take 3 (pegMap (vector_engine h))) =
       [[fdiv 422123 1000000],
        [fdiv 552503 1000000, fdiv 408786 1000000],
        [fdiv 491574 1000000, fdiv 468780 1000000, fdiv 436540 1000000]]
   \<and> run (vector_engine h) 6 =
       Inr (\<lparr>res_pegMapHash = h, path = [Left, Left, Left, Right, Left, Right, Left, Right, Left, Right, Right, Right],
              binIndex = 6, res_pegMap = vector_pegMap\<rparr>,
            vector_engine h\<lparr>prng := \<lparr>state = 0xf05c71ef\<rparr>\<rparr>)"
proof -
  have d: "nth_draw k (new_Xorshift32 0xe1dddf77) =
      of_int (uint (vector_states ! (k - 1))) / 2 ^ 32" if "0 < k" "k \<le> 102" for k
  proof -
    from that have "k - 1 < 102" "Suc (k - 1) = k" by simp_all
    with nth_draw_states[of "k - 1" 102 "0xe1dddf77"] show ?thesis
      by (simp only: vector_generator vector_states)
  qed
  have draws: "map (\<lambda>k. round_half_away (nth_draw k (new_Xorshift32 0xe1dddf77) * 10 ^ 10))
      [1, 2, 3, 4, 5] = [1106166649, 7625129214, 439292176, 4578678815, 3438999297]"
    by (simp add: d del: of_int_uint)
      (simp add: vector_states_def round_half_away_def floor_rat_numeral_div)
  have pegs: "map (map leftBias) (take 3 (pegMap (vector_engine h))) =
      [[fdiv 422123 1000000],
       [fdiv 552503 1000000, fdiv 408786 1000000],
       [fdiv 491574 1000000, fdiv 468780 1000000, fdiv 436540 1000000]]"
    by (simp add: vector_engine_def vector_pegMap_def vector_biases_def)
  have "run (vector_engine h) 6 =
       Inr (\<lparr>res_pegMapHash = h, path = [Left, Left, Left, Right, Left, Right, Left, Right, Left, Right, Right, Right],
              binIndex = 6, res_pegMap = vector_pegMap\<rparr>,
            vector_engine h\<lparr>prng := \<lparr>state = 0xf05c71ef\<rparr>\<rparr>)"
    using run_vector_engine[OF vector_run_6, of h] by (simp add: vector_engine_def)
  with draws pegs show ?thesis
    by (simp only: vector_seedInt vector_createGameEngine simp_thms)
qed

text \<open>
  C8 fails on the code. \<open>Buffer.from(s, 'hex')\<close> does not throw on a string that is
  not valid hex: it decodes the leading pairs of hex digits. The string \<open>deadbeefzz\<close>
  is not valid hex and decodes to 4 bytes, so the engine is seeded from these bytes,
  \<open>0xdeadbeef\<close>, whatever the digest function is: the input is not hashed again.
\<close>

theorem invalid_hex_not_rehashed:
  "\<not> valid_hex ''deadbeefzz''
   \<and> Buffer_from_hex ''deadbeefzz'' = Inr [0xde, 0xad, 0xbe, 0xef]
   \<and> seedInt_of sha256 ''deadbeefzz'' = Inr 0xdeadbeef"
  by (simp add: valid_hex_def seedInt_of_def seed_buffer_def Buffer_from_hex_def unhex_def
      readUInt32BE0_def)

end
